theory Spec2Isabelle
  imports Main "HOL-Library.Sublist"
begin

section \<open>JavaScript strings\<close>

text \<open>
  A JavaScript string is modelled as a \<open>string\<close> (a list of \<open>char\<close>): each \<open>char\<close> stands
  for one code unit below 256 (the Latin-1 range), \<open>length\<close> is \<open>.length\<close>, \<open>drop\<close> and
  \<open>take\<close> are \<open>substring\<close>, \<open>@\<close> is \<open>+\<close>.
\<close>

definition charCode :: "char \<Rightarrow> nat" where
  "charCode c = of_char c"

text \<open>\<open>String.prototype.toLowerCase\<close> on one code unit: A-Z, and the Latin-1 capitals
  U+00C0..U+00DE without the multiplication sign U+00D7, move up by 32.\<close>

definition toLowerChar :: "char \<Rightarrow> char" where
  "toLowerChar c =
     (if (65 \<le> charCode c \<and> charCode c \<le> 90) \<or> (192 \<le> charCode c \<and> charCode c \<le> 222 \<and> charCode c \<noteq> 215)
      then char_of (charCode c + 32) else c)"

definition toLowerCase :: "string \<Rightarrow> string" where
  "toLowerCase s = map toLowerChar s"

text \<open>\<open>s.indexOf(pat)\<close>: the first index at which \<open>pat\<close> occurs; \<open>None\<close> stands for the
  result \<open>-1\<close>.\<close>

fun indexOf :: "string \<Rightarrow> string \<Rightarrow> nat option" where
  "indexOf [] pat = (if pat = [] then Some 0 else None)"
| "indexOf (c # cs) pat =
     (if prefix pat (c # cs) then Some 0 else map_option Suc (indexOf cs pat))"

text \<open>\<open>s[i]\<close>: \<open>None\<close> stands for \<open>undefined\<close> (an index past the end).\<close>

definition charAt :: "string \<Rightarrow> nat \<Rightarrow> char option" where
  "charAt s i = (if i < length s then Some (s ! i) else None)"

text \<open>\<open>s.split(sep)\<close> for a one-character separator: never an empty array; the empty string
  splits into one empty part.\<close>

fun split_js :: "char \<Rightarrow> string \<Rightarrow> string list" where
  "split_js sep [] = [[]]"
| "split_js sep (c # cs) =
     (if c = sep then [] # split_js sep cs
      else (case split_js sep cs of [] \<Rightarrow> [[c]] | p # ps \<Rightarrow> (c # p) # ps))"

subsection \<open>parseInt\<close>

text \<open>
  \<open>parseInt(s)\<close> with no radix, as ECMAScript defines it: leading white space is skipped,
  one sign is read, a prefix \<open>0x\<close> or \<open>0X\<close> selects radix 16, and the longest run of
  digits of the radix is the value; characters after it are ignored. \<open>None\<close> stands for
  \<open>NaN\<close> (no digit). The value is kept exact (an \<open>int\<close>); the comparisons made on it
  (\<open>< 1\<close>, \<open>>= 2**16\<close>) give the same answer on the rounded double.
\<close>

definition isWhiteSpace :: "char \<Rightarrow> bool" where
  "isWhiteSpace c = (charCode c \<in> {9, 10, 11, 12, 13, 32, 160})"

definition digitVal :: "char \<Rightarrow> nat option" where
  "digitVal c =
     (if 48 \<le> charCode c \<and> charCode c \<le> 57 then Some (charCode c - 48)
      else if 97 \<le> charCode c \<and> charCode c \<le> 122 then Some (charCode c - 87)
      else if 65 \<le> charCode c \<and> charCode c \<le> 90 then Some (charCode c - 55)
      else None)"

definition isRadixDigit :: "nat \<Rightarrow> char \<Rightarrow> bool" where
  "isRadixDigit r c = (case digitVal c of None \<Rightarrow> False | Some d \<Rightarrow> d < r)"

definition digitsValue :: "nat \<Rightarrow> string \<Rightarrow> nat" where
  "digitsValue r ds = foldl (\<lambda>acc c. acc * r + (case digitVal c of None \<Rightarrow> 0 | Some d \<Rightarrow> d)) 0 ds"

definition parseInt :: "string \<Rightarrow> int option" where
  "parseInt str =
     (let s = dropWhile isWhiteSpace str;
          neg = (case s of [] \<Rightarrow> False | c # _ \<Rightarrow> c = CHR ''-'');
          s1 = (case s of [] \<Rightarrow> [] | c # cs \<Rightarrow> if c = CHR ''+'' \<or> c = CHR ''-'' then cs else s);
          hex = (prefix ''0x'' s1 \<or> prefix ''0X'' s1);
          s2 = (if hex then drop 2 s1 else s1);
          r = (if hex then 16 else 10);
          z = takeWhile (isRadixDigit r) s2
      in if z = [] then None
         else Some (if neg then - int (digitsValue r z) else int (digitsValue r z)))"

section \<open>Base validation\<close>

text \<open>\<open>RegExp('^[a-zA-Z0-9\.\-]+$').test(s)\<close>: \<open>s\<close> is not empty and every character is a
  letter a-z or A-Z, a digit, a dot or a hyphen.\<close>

definition baseChar :: "char \<Rightarrow> bool" where
  "baseChar c =
     ((97 \<le> charCode c \<and> charCode c \<le> 122) \<or> (65 \<le> charCode c \<and> charCode c \<le> 90) \<or>
      (48 \<le> charCode c \<and> charCode c \<le> 57) \<or> c = CHR ''.'' \<or> c = CHR ''-'')"

definition baseRegex :: "string \<Rightarrow> bool" where
  "baseRegex s = (s \<noteq> [] \<and> list_all baseChar s)"

text \<open>The test made on each part of the host in \<open>validateBase\<close>:
  the regular expression, \<open>part[0] !== '-'\<close> and \<open>part[part.length-1] !== '-'\<close>.\<close>

definition partOk :: "string \<Rightarrow> bool" where
  "partOk part =
     (baseRegex part \<and> charAt part 0 \<noteq> Some CHR ''-'' \<and>
      charAt part (length part - 1) \<noteq> Some CHR ''-'')"

text \<open>
  \<open>validateBase\<close> of the store-backed engine. The \<open>for\<close> loop over the parts returns
  \<open>false\<close> at the first part that fails: \<open>list_all\<close>.
\<close>

definition validateBase :: "string \<Rightarrow> bool" where
  "validateBase base =
     (case indexOf base '':'' of
        None \<Rightarrow>
          if list_all partOk (split_js CHR ''.'' base) then length base < 254 else False
      | Some ind0 \<Rightarrow>
          (case parseInt (drop (ind0 + 1) base) of
             None \<Rightarrow> False
           | Some portNum \<Rightarrow>
               if portNum < 1 \<or> portNum \<ge> 2 ^ 16 then False
               else if list_all partOk (split_js CHR ''.'' (take ind0 base))
                    then length base < 254 else False))"

text \<open>
  \<open>validateBase\<close> of the unfinished copy of the engine (the one whose \<open>add\<close>, \<open>query\<close>,
  \<open>count\<close> and \<open>deactivate\<close> are marked TODO): the host is tested as a whole, and the
  length of the base is not looked at.
\<close>

definition stub_validateBase :: "string \<Rightarrow> bool" where
  "stub_validateBase base =
     (case indexOf base '':'' of
        None \<Rightarrow> partOk base
      | Some ind0 \<Rightarrow>
          (case parseInt (drop (ind0 + 1) base) of
             None \<Rightarrow> False
           | Some portNum \<Rightarrow>
               if portNum < 1 \<or> portNum \<ge> 2 ^ 16 then False
               else partOk (take ind0 base)))"

section \<open>URL parsing (store-backed engine)\<close>

record error =
  code :: string
  message :: string

text \<open>\<open>setUrlSyntaxError\<close> builds its message from \<open>urlParts.url\<close> at the time of the call.\<close>

definition setUrlSyntaxError :: "string \<Rightarrow> error" where
  "setUrlSyntaxError u = \<lparr>code = ''URL_SYNTAX'', message = ''URL_SYNTAX: bad url '' @ u\<rparr>"

text \<open>
  The object \<open>getUrlParts\<close> returns. Every caller looks at \<open>error\<close> first and returns it when
  it is set, so the result is a sum: \<open>Inl\<close> the error object, \<open>Inr\<close> the parts of a URL that
  parsed. \<open>rest\<close> stays \<open>null\<close> (\<open>None\<close>) for a URL with no path.
\<close>

record urlParts =
  scheme :: string
  base :: string
  domain :: string
  rest :: "string option"
  baseRest :: string
  url :: string

definition getUrlParts :: "string \<Rightarrow> error + urlParts" where
  "getUrlParts u =
     (case indexOf u ''://'' of
        None \<Rightarrow> Inl (setUrlSyntaxError u)
      | Some i \<Rightarrow>
          let ind0 = i + 3 in
          if ind0 = 3 \<or> length u = ind0 \<or> charAt u ind0 = Some CHR ''/''
          then Inl (setUrlSyntaxError u)
          else
            let sch = toLowerCase (take (ind0 - 3) u);
                br = toLowerCase (drop ind0 u);
                ind1 = indexOf (drop ind0 u) ''/'';
                b = (case ind1 of None \<Rightarrow> br
                       | Some j \<Rightarrow> toLowerCase (take j (drop ind0 u)));
                r = (case ind1 of None \<Rightarrow> None
                       | Some j \<Rightarrow> Some (drop (ind0 + j) u))
            in if validateBase b
               then
                 let ind2 = (case indexOf b '':'' of None \<Rightarrow> length b | Some k \<Rightarrow> k)
                 in Inr \<lparr>scheme = sch, base = b, domain = take ind2 b, rest = r,
                          baseRest = br, url = sch @ ''://'' @ br\<rparr>
               else Inl (setUrlSyntaxError u))"

text \<open>
  \<open>validateScheme(urlParts, regex)\<close>: the regular expression is the predicate \<open>regex.test\<close>.
  On parts that already carry an error the call can only set the same error again
  (\<open>urlParts.url\<close> is still the input), so \<open>Inl\<close> is passed on.
\<close>

definition validateScheme :: "error + urlParts \<Rightarrow> (string \<Rightarrow> bool) \<Rightarrow> error + urlParts" where
  "validateScheme parts regex =
     (case parts of
        Inl e \<Rightarrow> Inl e
      | Inr p \<Rightarrow> if regex (scheme p) then Inr p else Inl (setUrlSyntaxError (url p)))"

text \<open>\<open>RegExp('^https?$')\<close> and \<open>RegExp('^mongodb$')\<close>.\<close>

definition httpRegex :: "string \<Rightarrow> bool" where
  "httpRegex s = (s = ''http'' \<or> s = ''https'')"

definition mongodbRegex :: "string \<Rightarrow> bool" where
  "mongodbRegex s = (s = ''mongodb'')"

section \<open>The store-backed engine\<close>

text \<open>
  A document of the collection \<open>urlInfo\<close>. The collection is the list of its documents in
  insertion order; \<open>findOne\<close> returns the first document that matches. The \<open>_id\<close> that
  MongoDB adds is left out: the only filter that would read it is the document \<open>findOne\<close>
  has just returned, and \<open>updateOne\<close> with that filter changes the first document equal
  to it.
\<close>

record urlInfo =
  longUrl :: string
  shortUrl :: string
  active :: bool
  queries :: nat

record shortener =
  SHORTENER_BASE :: string
  col :: "urlInfo list"

text \<open>
  The factory \<open>make\<close> (\<open>make_js\<close> here, the name \<open>make\<close> being taken), up to the connection: \<open>stored\<close> is what the collection of the
  database holds when the client connects. In the message, \<open>mongoParts.url\<close> is the input
  when \<open>getUrlParts\<close> failed and the normalized URL when only the scheme was wrong.
\<close>

definition make_js :: "string \<Rightarrow> string \<Rightarrow> urlInfo list \<Rightarrow> error + shortener" where
  "make_js mongoDbUrl shortenerBase stored =
     (case validateScheme (getUrlParts mongoDbUrl) mongodbRegex of
        Inl e \<Rightarrow>
          Inl \<lparr>code = ''BAD_MONGO_URL'',
               message = ''BAD_MONGO_URL: mongodbUrl is invlid '' @
                 (case getUrlParts mongoDbUrl of Inl _ \<Rightarrow> mongoDbUrl | Inr p \<Rightarrow> url p)\<rparr>
      | Inr mongoParts \<Rightarrow>
          if validateBase shortenerBase
          then Inr \<lparr>SHORTENER_BASE = shortenerBase, col = stored\<rparr>
          else Inl \<lparr>code = ''BAD_SHORTENER_BASE'',
                    message = ''BAD_SHORTENER_BASE: shortenerBase is invlid '' @ shortenerBase\<rparr>)"

text \<open>\<open>_queryDb\<close>: \<open>findOne({$or: [{longUrl:url}, {shortUrl:url}]})\<close>.\<close>

definition queryDb :: "urlInfo list \<Rightarrow> string \<Rightarrow> urlInfo option" where
  "queryDb c u = find (\<lambda>d. longUrl d = u \<or> shortUrl d = u) c"

fun updateOne :: "urlInfo \<Rightarrow> (urlInfo \<Rightarrow> urlInfo) \<Rightarrow> urlInfo list \<Rightarrow> urlInfo list" where
  "updateOne flt f [] = []"
| "updateOne flt f (d # ds) = (if d = flt then f d # ds else d # updateOne flt f ds)"

text \<open>\<open>n.toString(36)\<close> for a non-negative integer.\<close>

definition digit36 :: "nat \<Rightarrow> char" where
  "digit36 d = ''0123456789abcdefghijklmnopqrstuvwxyz'' ! d"

fun toString36 :: "nat \<Rightarrow> string" where
  "toString36 n = (if n < 36 then [digit36 n] else toString36 (n div 36) @ [digit36 (n mod 36)])"

declare toString36.simps [simp del]

text \<open>What an operation of the engine hands to its caller.\<close>

datatype result =
    ValueStr string \<comment> \<open>\<open>{ value: s }\<close>, a string\<close>
  | ValueNum nat \<comment> \<open>\<open>{ value: n }\<close>, a number\<close>
  | ValueNaN \<comment> \<open>\<open>{ value: NaN }\<close>\<close>
  | ValueUndefined \<comment> \<open>\<open>{ value: undefined }\<close>\<close>
  | Empty \<comment> \<open>\<open>{}\<close>\<close>
  | ErrorObj error \<comment> \<open>\<open>{ error: { code, message } }\<close>\<close>
  | TypeError string \<comment> \<open>an exception: the promise of the \<open>async\<close> method is rejected\<close>

text \<open>\<open>_setErrMsg\<close>, the error it stores in \<open>urlParts.error\<close>.\<close>

definition setErrMsg :: "string \<Rightarrow> urlParts \<Rightarrow> string \<Rightarrow> error" where
  "setErrMsg sbase p errMsg =
     (if errMsg = ''DOMAIN_EQ'' then
        \<lparr>code = ''DOMAIN'', message = ''DOMAIN: domain '' @ domain p @ '' equal to '' @ sbase\<rparr>
      else if errMsg = ''DOMAIN_NE'' then
        \<lparr>code = ''DOMAIN'',
         message = ''DOMAIN: domain of url '' @ domain p @ '' not equal to '' @ sbase\<rparr>
      else if errMsg = ''NOT_FOUND'' then
        \<lparr>code = ''NOT_FOUND'', message = ''NOT_FOUND: '' @ url p @ '' not found''\<rparr>
      else
        \<lparr>code = ''UNKNOWN'', message = ''UNKNOWN: unknown error, something went wrong :(''\<rparr>)"

text \<open>
  \<open>add\<close>. The random number \<open>Math.floor(Math.random()*2**32)\<close> is the argument \<open>rnd\<close>.
  In the branch for a URL of the shortener's own domain the method calls
  \<open>this.setErrMsg\<close>; the class defines \<open>_setErrMsg\<close> only, so the call raises a
  \<open>TypeError\<close> before anything is stored or returned.
\<close>

definition add :: "shortener \<Rightarrow> string \<Rightarrow> nat \<Rightarrow> result \<times> shortener" where
  "add this lUrl rnd =
     (case validateScheme (getUrlParts lUrl) httpRegex of
        Inl e \<Rightarrow> (ErrorObj e, this)
      | Inr p \<Rightarrow>
          if domain p = SHORTENER_BASE this
          then (TypeError ''this.setErrMsg is not a function'', this)
          else
            (case queryDb (col this) (baseRest p) of
               Some urlInfo \<Rightarrow>
                 (ValueStr (scheme p @ ''://'' @ shortUrl urlInfo),
                  this\<lparr>col := updateOne urlInfo (\<lambda>d. d\<lparr>active := True\<rparr>) (col this)\<rparr>)
             | None \<Rightarrow>
                 let newUrl = SHORTENER_BASE this @ ''/'' @ toString36 rnd;
                     urlInfo = \<lparr>longUrl = baseRest p, shortUrl = newUrl, active = True,
                                queries = 0\<rparr>
                 in (ValueStr (scheme p @ ''://'' @ shortUrl urlInfo),
                     this\<lparr>col := col this @ [urlInfo]\<rparr>)))"

definition query :: "shortener \<Rightarrow> string \<Rightarrow> result \<times> shortener" where
  "query this sUrl =
     (case validateScheme (getUrlParts sUrl) httpRegex of
        Inl e \<Rightarrow> (ErrorObj e, this)
      | Inr p \<Rightarrow>
          if domain p \<noteq> SHORTENER_BASE this
          then (ErrorObj (setErrMsg (SHORTENER_BASE this) p ''DOMAIN_NE''), this)
          else
            (case queryDb (col this) (baseRest p) of
               None \<Rightarrow> (ErrorObj (setErrMsg (SHORTENER_BASE this) p ''NOT_FOUND''), this)
             | Some urlInfo \<Rightarrow>
                 if active urlInfo
                 then (ValueStr (scheme p @ ''://'' @ longUrl urlInfo),
                       this\<lparr>col := updateOne urlInfo
                                      (\<lambda>d. d\<lparr>queries := queries urlInfo + 1\<rparr>) (col this)\<rparr>)
                 else (ErrorObj (setErrMsg (SHORTENER_BASE this) p ''NOT_FOUND''), this)))"

definition count :: "shortener \<Rightarrow> string \<Rightarrow> result \<times> shortener" where
  "count this u =
     (case validateScheme (getUrlParts u) httpRegex of
        Inl e \<Rightarrow> (ErrorObj e, this)
      | Inr p \<Rightarrow>
          (case queryDb (col this) (baseRest p) of
             None \<Rightarrow> (ErrorObj (setErrMsg (SHORTENER_BASE this) p ''NOT_FOUND''), this)
           | Some urlInfo \<Rightarrow> (ValueNum (queries urlInfo), this)))"

definition deactivate :: "shortener \<Rightarrow> string \<Rightarrow> result \<times> shortener" where
  "deactivate this u =
     (case validateScheme (getUrlParts u) httpRegex of
        Inl e \<Rightarrow> (ErrorObj e, this)
      | Inr p \<Rightarrow>
          (case queryDb (col this) (baseRest p) of
             None \<Rightarrow> (ErrorObj (setErrMsg (SHORTENER_BASE this) p ''NOT_FOUND''), this)
           | Some urlInfo \<Rightarrow>
               (Empty, this\<lparr>col := updateOne urlInfo (\<lambda>d. d\<lparr>active := False\<rparr>) (col this)\<rparr>)))"

text \<open>A call of one of the four operations, and a run of calls one after the other.\<close>

datatype call = Add string nat | Query string | Count string | Deactivate string

fun exec :: "shortener \<Rightarrow> call \<Rightarrow> result \<times> shortener" where
  "exec this (Add u rnd) = add this u rnd"
| "exec this (Query u) = query this u"
| "exec this (Count u) = count this u"
| "exec this (Deactivate u) = deactivate this u"

fun run :: "shortener \<Rightarrow> call list \<Rightarrow> shortener" where
  "run this [] = this"
| "run this (c # cs) = run (snd (exec this c)) cs"


section \<open>The in-memory engine\<close>

text \<open>
  The first variant of the engine keeps its associations in two objects, \<open>LONG_ACCESS\<close>
  (keyed by long URL) and \<open>SHORT_ACCESS\<close> (keyed by short URL). Both hold references to
  the same \<open>urlInfo\<close> objects, so the state has a heap of objects (a list, an address is
  an index) and the own properties of the two objects are maps from keys to addresses.

  Both objects are created as \<open>{}\<close>, so a key that is not an own property is looked up in
  \<open>Object.prototype\<close>: \<open>obj['constructor']\<close> is the function \<open>Object\<close> and
  \<open>obj['__proto__']\<close> is \<open>Object.prototype\<close> itself. The engine writes \<open>active\<close> and
  \<open>queries\<close> to whatever object a lookup gave it, so these two properties of \<open>Object\<close>
  and of \<open>Object.prototype\<close> are part of the state; once \<open>Object.prototype\<close> has them,
  \<open>obj['active']\<close> and \<open>obj['queries']\<close> are inherited too.
\<close>

datatype jsval =
    Ref nat \<comment> \<open>the \<open>urlInfo\<close> object at an address of the heap\<close>
  | ObjectFunction \<comment> \<open>the function \<open>Object\<close>\<close>
  | ObjectPrototype \<comment> \<open>the object \<open>Object.prototype\<close>\<close>
  | Boolean bool
  | NaN
  | Undefined

text \<open>
  The properties of the two built-in objects that the engine can write. \<open>queries\<close> is
  written by \<open>++\<close> only, applied to \<open>undefined\<close> or to \<open>NaN\<close>: once the property is there
  (\<open>True\<close>) its value is \<open>NaN\<close>.
\<close>

record realm =
  Object_active :: "bool option"
  Object_queries :: bool
  prototype_active :: "bool option"
  prototype_queries :: bool

record urlParts1 =
  scheme1 :: string
  domain1 :: string
  rest1 :: "string option"
  domainRest1 :: string
  url1 :: string

record shortener1 =
  SHORTENER_DOMAIN :: string
  LONG_ACCESS :: "string \<rightharpoonup> nat"
  SHORT_ACCESS :: "string \<rightharpoonup> nat"
  heap :: "urlInfo list"
  realm :: realm

text \<open>\<open>if (v)\<close>: objects and functions are true, \<open>NaN\<close> and \<open>undefined\<close> are false.\<close>

fun truthy :: "jsval \<Rightarrow> bool" where
  "truthy (Ref a) = True"
| "truthy ObjectFunction = True"
| "truthy ObjectPrototype = True"
| "truthy (Boolean b) = b"
| "truthy NaN = False"
| "truthy Undefined = False"

text \<open>
  What a plain object inherits at a key. The other names \<open>Object.prototype\<close> defines
  (\<open>toString\<close>, \<open>valueOf\<close>, \<open>hasOwnProperty\<close>, ...) all have a capital letter and no
  slash, and are never the key \<open>domainRest\<close> of a URL (lemma \<open>key_not_capitalised\<close>).
\<close>

definition inherited :: "realm \<Rightarrow> string \<Rightarrow> jsval" where
  "inherited g k =
     (if k = ''constructor'' then ObjectFunction
      else if k = ''__proto__'' then ObjectPrototype
      else if k = ''active'' then
        (case prototype_active g of Some b \<Rightarrow> Boolean b | None \<Rightarrow> Undefined)
      else if k = ''queries'' then (if prototype_queries g then NaN else Undefined)
      else Undefined)"

text \<open>\<open>obj[k]\<close> for \<open>obj\<close> one of \<open>LONG_ACCESS\<close> and \<open>SHORT_ACCESS\<close>, given its own properties.\<close>

definition lookup :: "realm \<Rightarrow> (string \<rightharpoonup> nat) \<Rightarrow> string \<Rightarrow> jsval" where
  "lookup g obj k = (case obj k of Some a \<Rightarrow> Ref a | None \<Rightarrow> inherited g k)"

text \<open>
  The class body is strict code: an assignment to a property of the primitive \<open>true\<close>
  raises a \<open>TypeError\<close> (the message is the one of V8).
\<close>

definition cannotCreate :: "string \<Rightarrow> string" where
  "cannotCreate prop =
     ''Cannot create property '' @ [CHR 0x27] @ prop @ [CHR 0x27] @ '' on boolean '' @
     [CHR 0x27] @ ''true'' @ [CHR 0x27]"

text \<open>\<open>_setErrMsg\<close> of the in-memory engine, given the two fields of \<open>urlParts\<close> it reads
  (\<open>domain\<close> and \<open>url\<close>).\<close>

definition prj1_setErrMsg :: "string \<Rightarrow> string \<Rightarrow> string \<Rightarrow> string \<Rightarrow> error" where
  "prj1_setErrMsg sdom dm u errMsg =
     (if errMsg = ''URL_SYNTAX'' then
        \<lparr>code = ''URL_SYNTAX'', message = ''URL_SYNTAX: bad url '' @ u\<rparr>
      else if errMsg = ''DOMAIN_EQ'' then
        \<lparr>code = ''DOMAIN'', message = ''DOMAIN: domain '' @ dm @ '' equal to '' @ sdom\<rparr>
      else if errMsg = ''DOMAIN_NE'' then
        \<lparr>code = ''DOMAIN'',
         message = ''DOMAIN: domain of url '' @ dm @ '' not equal to '' @ sdom\<rparr>
      else if errMsg = ''NOT_FOUND'' then
        \<lparr>code = ''NOT_FOUND'', message = ''NOT_FOUND: '' @ u @ '' not found''\<rparr>
      else
        \<lparr>code = ''UNKNOWN'', message = ''UNKNOWN: unknown error, something went wrong :(''\<rparr>)"

text \<open>\<open>_getUrlParts\<close>: no test of the scheme and none of the domain; the scheme keeps its
  \<open>://\<close>; only the domain is lower-cased in the key \<open>domainRest\<close>.\<close>

definition prj1_getUrlParts :: "string \<Rightarrow> error + urlParts1" where
  "prj1_getUrlParts u =
     (case indexOf u ''://'' of
        None \<Rightarrow> Inl (prj1_setErrMsg [] [] u ''URL_SYNTAX'')
      | Some i \<Rightarrow>
          let ind0 = i + 3 in
          if ind0 = 3 \<or> length u = ind0 \<or> charAt u ind0 = Some CHR ''/''
          then Inl (prj1_setErrMsg [] [] u ''URL_SYNTAX'')
          else
            let sch = toLowerCase (take ind0 u) in
            (case indexOf (drop ind0 u) ''/'' of
               None \<Rightarrow>
                 let dm = toLowerCase (drop ind0 u)
                 in Inr \<lparr>scheme1 = sch, domain1 = dm, rest1 = None, domainRest1 = dm,
                          url1 = sch @ dm\<rparr>
             | Some ind1 \<Rightarrow>
                 let dm = toLowerCase (take ind1 (drop ind0 u));
                     r = drop (ind0 + ind1) u
                 in Inr \<lparr>scheme1 = sch, domain1 = dm, rest1 = Some r, domainRest1 = dm @ r,
                          url1 = sch @ dm @ r\<rparr>))"

text \<open>
  The constructor, \<open>new UrlShortener(domain)\<close>, in a program that has given \<open>Object\<close> and
  \<open>Object.prototype\<close> no property \<open>active\<close> or \<open>queries\<close> before.
\<close>

definition prj1_new :: "string \<Rightarrow> shortener1" where
  "prj1_new dm =
     \<lparr>SHORTENER_DOMAIN = toLowerCase dm, LONG_ACCESS = Map.empty, SHORT_ACCESS = Map.empty,
      heap = [],
      realm = \<lparr>Object_active = None, Object_queries = False, prototype_active = None,
               prototype_queries = False\<rparr>\<rparr>"

text \<open>
  \<open>add\<close>. The value of \<open>this.LONG_ACCESS[urlParts.domainRest]\<close> decides:

  \<^item> a \<open>urlInfo\<close> object: it is set active and its short URL is returned;
  \<^item> \<open>Object\<close> or \<open>Object.prototype\<close> (the keys \<open>constructor\<close> and \<open>__proto__\<close>): the test
    \<open>if (...)\<close> succeeds, \<open>active\<close> is written to the built-in object, and the value is the
    scheme followed by the text of \<open>undefined\<close>, these objects having no \<open>shortUrl\<close>;
  \<^item> \<open>true\<close> (the key \<open>active\<close>, once \<open>Object.prototype.active\<close> is \<open>true\<close>): the
    assignment \<open>true.active = true\<close> raises;
  \<^item> a false value: a new \<open>urlInfo\<close> is stored. In this case \<open>LONG_ACCESS\<close> has no own
    property at the key, and \<open>SHORT_ACCESS\<close> inherits the same false value there: the
    test \<open>if (this.SHORT_ACCESS[...])\<close> succeeds exactly when \<open>SHORT_ACCESS\<close> has an own
    property at the key.
\<close>

definition prj1_add :: "shortener1 \<Rightarrow> string \<Rightarrow> nat \<Rightarrow> result \<times> shortener1" where
  "prj1_add this lUrl rnd =
     (case prj1_getUrlParts lUrl of
        Inl e \<Rightarrow> (ErrorObj e, this)
      | Inr p \<Rightarrow>
          if domain1 p = SHORTENER_DOMAIN this
          then (ErrorObj (prj1_setErrMsg (SHORTENER_DOMAIN this) (domain1 p) (url1 p) ''DOMAIN_EQ''),
                this)
          else
            (case lookup (realm this) (LONG_ACCESS this) (domainRest1 p) of
               Ref a \<Rightarrow>
                 (ValueStr (scheme1 p @ shortUrl (heap this ! a)),
                  this\<lparr>heap := (heap this)[a := (heap this ! a)\<lparr>active := True\<rparr>]\<rparr>)
             | ObjectFunction \<Rightarrow>
                 (ValueStr (scheme1 p @ ''undefined''),
                  this\<lparr>realm := (realm this)\<lparr>Object_active := Some True\<rparr>\<rparr>)
             | ObjectPrototype \<Rightarrow>
                 (ValueStr (scheme1 p @ ''undefined''),
                  this\<lparr>realm := (realm this)\<lparr>prototype_active := Some True\<rparr>\<rparr>)
             | Boolean True \<Rightarrow> (TypeError (cannotCreate ''active''), this)
             | _ \<Rightarrow>
                 let sUrl = (case SHORT_ACCESS this (domainRest1 p) of
                               Some a \<Rightarrow> shortUrl (heap this ! a)
                             | None \<Rightarrow> SHORTENER_DOMAIN this @ ''/'' @ toString36 rnd);
                     urlInfo = \<lparr>longUrl = domainRest1 p, shortUrl = sUrl, active = True,
                                queries = 0\<rparr>;
                     a = length (heap this)
                 in (ValueStr (scheme1 p @ sUrl),
                     this\<lparr>heap := heap this @ [urlInfo],
                          LONG_ACCESS := (LONG_ACCESS this)(longUrl urlInfo \<mapsto> a),
                          SHORT_ACCESS := (SHORT_ACCESS this)(shortUrl urlInfo \<mapsto> a)\<rparr>)))"

text \<open>
  \<open>query\<close>. \<open>Object.active\<close> is the own property when \<open>Object\<close> has one and
  \<open>Object.prototype.active\<close> otherwise. The value \<open>true\<close> is inherited at the key \<open>active\<close>
  only when \<open>Object.prototype.active\<close> is \<open>true\<close>, which is then also \<open>true.active\<close>: the
  test passes and \<open>true.queries++\<close> raises.
\<close>

definition prj1_query :: "shortener1 \<Rightarrow> string \<Rightarrow> result \<times> shortener1" where
  "prj1_query this sUrl =
     (case prj1_getUrlParts sUrl of
        Inl e \<Rightarrow> (ErrorObj e, this)
      | Inr p \<Rightarrow>
          if domain1 p \<noteq> SHORTENER_DOMAIN this
          then (ErrorObj (prj1_setErrMsg (SHORTENER_DOMAIN this) (domain1 p) (url1 p) ''DOMAIN_NE''),
                this)
          else
            let notFound =
              (ErrorObj (prj1_setErrMsg (SHORTENER_DOMAIN this) (domain1 p) (url1 p) ''NOT_FOUND''),
               this)
            in
            (case lookup (realm this) (SHORT_ACCESS this) (domainRest1 p) of
               Ref a \<Rightarrow>
                 if active (heap this ! a)
                 then (ValueStr (scheme1 p @ longUrl (heap this ! a)),
                       this\<lparr>heap := (heap this)
                                 [a := (heap this ! a)\<lparr>queries := queries (heap this ! a) + 1\<rparr>]\<rparr>)
                 else notFound
             | ObjectFunction \<Rightarrow>
                 if (case Object_active (realm this) of
                       Some b \<Rightarrow> b
                     | None \<Rightarrow> prototype_active (realm this) = Some True)
                 then (ValueStr (scheme1 p @ ''undefined''),
                       this\<lparr>realm := (realm this)\<lparr>Object_queries := True\<rparr>\<rparr>)
                 else notFound
             | ObjectPrototype \<Rightarrow>
                 if prototype_active (realm this) = Some True
                 then (ValueStr (scheme1 p @ ''undefined''),
                       this\<lparr>realm := (realm this)\<lparr>prototype_queries := True\<rparr>\<rparr>)
                 else notFound
             | Boolean True \<Rightarrow> (TypeError (cannotCreate ''queries''), this)
             | _ \<Rightarrow> notFound))"

text \<open>
  \<open>count\<close>. The \<open>queries\<close> of a built-in object (or of \<open>true\<close>) is \<open>NaN\<close> when the
  property is there, own or inherited, and \<open>undefined\<close> otherwise.
\<close>

definition prj1_count :: "shortener1 \<Rightarrow> string \<Rightarrow> result \<times> shortener1" where
  "prj1_count this u =
     (case prj1_getUrlParts u of
        Inl e \<Rightarrow> (ErrorObj e, this)
      | Inr p \<Rightarrow>
          (case lookup (realm this) (LONG_ACCESS this) (domainRest1 p) of
             Ref a \<Rightarrow> (ValueNum (queries (heap this ! a)), this)
           | ObjectFunction \<Rightarrow>
               (if Object_queries (realm this) \<or> prototype_queries (realm this)
                then ValueNaN else ValueUndefined, this)
           | ObjectPrototype \<Rightarrow>
               (if prototype_queries (realm this) then ValueNaN else ValueUndefined, this)
           | Boolean True \<Rightarrow>
               (if prototype_queries (realm this) then ValueNaN else ValueUndefined, this)
           | _ \<Rightarrow>
               (case SHORT_ACCESS this (domainRest1 p) of
                  Some a \<Rightarrow> (ValueNum (queries (heap this ! a)), this)
                | None \<Rightarrow>
                    (ErrorObj
                       (prj1_setErrMsg (SHORTENER_DOMAIN this) (domain1 p) (url1 p) ''NOT_FOUND''),
                     this))))"

definition prj1_remove :: "shortener1 \<Rightarrow> string \<Rightarrow> result \<times> shortener1" where
  "prj1_remove this u =
     (case prj1_getUrlParts u of
        Inl e \<Rightarrow> (ErrorObj e, this)
      | Inr p \<Rightarrow>
          (case lookup (realm this) (LONG_ACCESS this) (domainRest1 p) of
             Ref a \<Rightarrow>
               (Empty, this\<lparr>heap := (heap this)[a := (heap this ! a)\<lparr>active := False\<rparr>]\<rparr>)
           | ObjectFunction \<Rightarrow>
               (Empty, this\<lparr>realm := (realm this)\<lparr>Object_active := Some False\<rparr>\<rparr>)
           | ObjectPrototype \<Rightarrow>
               (Empty, this\<lparr>realm := (realm this)\<lparr>prototype_active := Some False\<rparr>\<rparr>)
           | Boolean True \<Rightarrow> (TypeError (cannotCreate ''active''), this)
           | _ \<Rightarrow>
               (case SHORT_ACCESS this (domainRest1 p) of
                  Some a \<Rightarrow>
                    (Empty, this\<lparr>heap := (heap this)[a := (heap this ! a)\<lparr>active := False\<rparr>]\<rparr>)
                | None \<Rightarrow>
                    (ErrorObj
                       (prj1_setErrMsg (SHORTENER_DOMAIN this) (domain1 p) (url1 p) ''NOT_FOUND''),
                     this))))"

datatype call1 = Add1 string nat | Query1 string | Count1 string | Remove1 string

fun prj1_exec :: "shortener1 \<Rightarrow> call1 \<Rightarrow> result \<times> shortener1" where
  "prj1_exec this (Add1 u rnd) = prj1_add this u rnd"
| "prj1_exec this (Query1 u) = prj1_query this u"
| "prj1_exec this (Count1 u) = prj1_count this u"
| "prj1_exec this (Remove1 u) = prj1_remove this u"

fun prj1_run :: "shortener1 \<Rightarrow> call1 list \<Rightarrow> shortener1" where
  "prj1_run this [] = this"
| "prj1_run this (c # cs) = prj1_run (snd (prj1_exec this c)) cs"

section \<open>Notions used in the statements\<close>

text \<open>The two keys of a document: they never change once the document is stored.\<close>

definition keys :: "urlInfo \<Rightarrow> string \<times> string" where
  "keys d = (longUrl d, shortUrl d)"

text \<open>States used as examples: a shortener for \<open>short.ly\<close> with an empty collection,
  and one that holds the association of \<open>a.com\<close>.\<close>

definition emptyStore :: shortener where
  "emptyStore = \<lparr>SHORTENER_BASE = ''short.ly'', col = []\<rparr>"

definition oneStore :: shortener where
  "oneStore =
     \<lparr>SHORTENER_BASE = ''short.ly'',
      col = [\<lparr>longUrl = ''a.com'', shortUrl = ''short.ly/7'', active = True, queries = 0\<rparr>]\<rparr>"

definition offStore :: shortener where
  "offStore =
     \<lparr>SHORTENER_BASE = ''short.ly'',
      col = [\<lparr>longUrl = ''a.com'', shortUrl = ''short.ly/7'', active = False, queries = 0\<rparr>]\<rparr>"


text \<open>
  A well-formed state of the in-memory engine: every own property of \<open>LONG_ACCESS\<close> holds
  the address of an object of the heap whose long URL is the key, every object of the heap
  is the one \<open>LONG_ACCESS\<close> holds for its long URL, and \<open>LONG_ACCESS\<close> has no own property
  \<open>constructor\<close> or \<open>__proto__\<close>.
\<close>

definition wf1 :: "shortener1 \<Rightarrow> bool" where
  "wf1 t =
     ((\<forall>k a. LONG_ACCESS t k = Some a \<longrightarrow> a < length (heap t) \<and> longUrl (heap t ! a) = k) \<and>
      (\<forall>a < length (heap t). LONG_ACCESS t (longUrl (heap t ! a)) = Some a) \<and>
      LONG_ACCESS t ''constructor'' = None \<and> LONG_ACCESS t ''__proto__'' = None)"

text \<open>What stays: the address of a long URL, the short URL stored at it, the domain.\<close>

definition stays :: "shortener1 \<Rightarrow> shortener1 \<Rightarrow> bool" where
  "stays t t' =
     (SHORTENER_DOMAIN t' = SHORTENER_DOMAIN t \<and>
      (\<forall>k a. LONG_ACCESS t k = Some a \<longrightarrow>
         LONG_ACCESS t' k = Some a \<and> shortUrl (heap t' ! a) = shortUrl (heap t ! a)))"

text \<open>
  The four ways in which an operation of the in-memory engine changes the state: not at
  all; one object of the heap, its two URLs kept; the built-in objects only; one new object,
  stored under a long URL that had none.
\<close>

definition step1 :: "shortener1 \<Rightarrow> shortener1 \<Rightarrow> bool" where
  "step1 t t' =
     (t' = t \<or>
      (\<exists>a x. t' = t\<lparr>heap := (heap t)[a := x]\<rparr> \<and> longUrl x = longUrl (heap t ! a) \<and>
             shortUrl x = shortUrl (heap t ! a)) \<or>
      (\<exists>g. t' = t\<lparr>realm := g\<rparr>) \<or>
      (\<exists>k x m. LONG_ACCESS t k = None \<and> k \<noteq> ''constructor'' \<and> k \<noteq> ''__proto__'' \<and>
           longUrl x = k \<and>
           t' = t\<lparr>heap := heap t @ [x], LONG_ACCESS := (LONG_ACCESS t)(k \<mapsto> length (heap t)),
                  SHORT_ACCESS := m\<rparr>))"

text \<open>
  A collection without a collision of tokens: every short URL is the shortener's base, a
  slash and lower-case text, no two documents share a short URL, and no long URL of a
  document is the short URL of one.
\<close>

definition storeOk :: "shortener \<Rightarrow> bool" where
  "storeOk s =
     ((\<forall>x \<in> set (map shortUrl (col s)).
         prefix (SHORTENER_BASE s @ ''/'') x \<and> toLowerCase x = x) \<and>
      distinct (map shortUrl (col s)) \<and>
      set (map longUrl (col s)) \<inter> set (map shortUrl (col s)) = {})"

section \<open>The text translator\<close>

text \<open>
  The web service replaces the URLs it finds in a text by short URLs. Its regular
  expression is \<open>/https?\:\/\/[\w\-\/\.\?\=\&\%\#\@\+\~]+/gi\<close>.
\<close>

definition wordChar :: "char \<Rightarrow> bool" where
  "wordChar c =
     ((97 \<le> charCode c \<and> charCode c \<le> 122) \<or> (65 \<le> charCode c \<and> charCode c \<le> 90) \<or>
      (48 \<le> charCode c \<and> charCode c \<le> 57) \<or> c = CHR ''_'')"

definition urlChar :: "char \<Rightarrow> bool" where
  "urlChar c = (wordChar c \<or> c \<in> set ''-/.?=&%#@+~'')"

text \<open>
  A match of the expression at the start of a string: its length, or \<open>None\<close>. The
  letters of \<open>http\<close> and \<open>https\<close> match in either case (flag \<open>i\<close>); the class is greedy, so
  the match takes the whole run of class characters, and needs one at least.
\<close>

definition matchUrlRe :: "string \<Rightarrow> nat option" where
  "matchUrlRe s =
     (case (if toLowerCase (take 8 s) = ''https://'' then Some 8
            else if toLowerCase (take 7 s) = ''http://'' then Some 7 else None) of
        None \<Rightarrow> None
      | Some k \<Rightarrow>
          (case takeWhile urlChar (drop k s) of
             [] \<Rightarrow> None
           | c # cs \<Rightarrow> Some (k + length (c # cs))))"

text \<open>The first match in a string: where it starts and how long it is.\<close>

fun search :: "string \<Rightarrow> (nat \<times> nat) option" where
  "search [] = None"
| "search (c # cs) =
     (case matchUrlRe (c # cs) of
        Some n \<Rightarrow> Some (0, n)
      | None \<Rightarrow> (case search cs of None \<Rightarrow> None | Some (i, n) \<Rightarrow> Some (Suc i, n)))"

text \<open>\<open>URL_RE.exec(text)\<close> when the expression's \<open>lastIndex\<close> is \<open>lastIndex\<close>:
  \<open>match.index\<close> and \<open>match[0]\<close> of the first match that starts there or later.\<close>

definition exec_re :: "string \<Rightarrow> nat \<Rightarrow> (nat \<times> string) option" where
  "exec_re text lastIndex =
     (case search (drop lastIndex text) of
        None \<Rightarrow> None
      | Some (i, n) \<Rightarrow> Some (lastIndex + i, take n (drop (lastIndex + i) text)))"

text \<open>\<open>text.replace(/c/g, rep)\<close> for one character \<open>c\<close>, and \<open>htmlEscape\<close>.\<close>

definition replaceAll :: "char \<Rightarrow> string \<Rightarrow> string \<Rightarrow> string" where
  "replaceAll c rep s = concat (map (\<lambda>x. if x = c then rep else [x]) s)"

definition htmlEscape :: "bool \<Rightarrow> string \<Rightarrow> string" where
  "htmlEscape doEscape text =
     (if doEscape
      then replaceAll (CHR 0x22) ''&quot;''
             (replaceAll CHR ''>'' ''&gt;''
               (replaceAll CHR ''<'' ''&lt;''
                 (replaceAll CHR ''&'' ''&amp;'' text)))
      else text)"

text \<open>
  The model \<open>app.locals.model\<close> is handed to the service from outside. Its \<open>add\<close> is a
  parameter here: a function from the model's state and a URL to what it does (it throws,
  or it returns an object, whose property \<open>value\<close> may be missing) and the new state.
\<close>

datatype addResult = Threw | Resolved "string option"

text \<open>\<open>result.value\<close> as the template string and \<open>+=\<close> print it, after the \<open>catch\<close> has put
  \<open>{ value: url }\<close> in the place of a thrown error.\<close>

definition resultValue :: "addResult \<Rightarrow> string \<Rightarrow> string" where
  "resultValue result u =
     (case result of
        Threw \<Rightarrow> u
      | Resolved None \<Rightarrow> ''undefined''
      | Resolved (Some v) \<Rightarrow> v)"

definition anchor :: "string \<Rightarrow> string" where
  "anchor v = ''<a href='' @ [CHR 0x22] @ v @ [CHR 0x22] @ ''>'' @ v @ ''</a>''"

text \<open>A match is not empty and lies inside the string: the loop below terminates.\<close>

lemma matchUrlRe_bounds: "matchUrlRe s = Some n \<Longrightarrow> 0 < n \<and> n \<le> length s"
proof -
  assume a: "matchUrlRe s = Some n"
  have len: "k + length (takeWhile urlChar (drop k s)) \<le> length s" if "k \<le> length s" for k
    using that length_takeWhile_le [of urlChar "drop k s"] by simp
  have k8: "8 \<le> length s" if "toLowerCase (take 8 s) = ''https://''"
  proof -
    from that have "length (toLowerCase (take 8 s)) = 8" by simp
    then show ?thesis by (simp add: toLowerCase_def min_def split: if_splits)
  qed
  have k7: "7 \<le> length s" if "toLowerCase (take 7 s) = ''http://''"
  proof -
    from that have "length (toLowerCase (take 7 s)) = 7" by simp
    then show ?thesis by (simp add: toLowerCase_def min_def split: if_splits)
  qed
  from a show ?thesis
    using len [of 8] len [of 7] k8 k7
    by (auto simp: matchUrlRe_def split: if_splits list.splits)
qed

lemma search_bounds: "search s = Some (i, n) \<Longrightarrow> 0 < n \<and> i + n \<le> length s"
proof (induction s arbitrary: i n)
  case Nil
  then show ?case by simp
next
  case (Cons c cs)
  then show ?case
    by (auto split: option.splits dest: matchUrlRe_bounds)
qed

lemma exec_re_bounds:
  assumes "exec_re text lastIndex = Some (index, u)"
  shows "lastIndex \<le> index \<and> lastIndex < index + length u \<and> index + length u \<le> length text"
proof -
  from assms obtain i n where s: "search (drop lastIndex text) = Some (i, n)"
    and r: "index = lastIndex + i" "u = take n (drop (lastIndex + i) text)"
    by (auto simp: exec_re_def split: option.splits)
  from search_bounds [OF s] have "0 < n" "i + n \<le> length text - lastIndex"
    by simp_all
  with r show ?thesis by auto
qed

text \<open>
  The loop of \<open>doTextShorten\<close>: \<open>lastIndex\<close> is where the last match ended, \<open>shortened\<close> the
  output so far, \<open>st\<close> the state of the model.
\<close>

function textShortenLoop ::
  "('st \<Rightarrow> string \<Rightarrow> addResult \<times> 'st) \<Rightarrow> bool \<Rightarrow> string \<Rightarrow> nat \<Rightarrow> 'st \<Rightarrow> string \<Rightarrow> string \<times> 'st"
where
  "textShortenLoop modelAdd isHtml text lastIndex st shortened =
     (case exec_re text lastIndex of
        None \<Rightarrow> (shortened @ htmlEscape isHtml (drop lastIndex text), st)
      | Some (index, u) \<Rightarrow>
          (case modelAdd st u of
             (result, st') \<Rightarrow>
               textShortenLoop modelAdd isHtml text (index + length u) st'
                 (shortened @ htmlEscape isHtml (take (index - lastIndex) (drop lastIndex text)) @
                  (if isHtml then anchor (resultValue result u) else resultValue result u))))"
  by pat_completeness auto
termination
proof (relation "measure (\<lambda>(modelAdd, isHtml, tx, lastIndex, st, shortened). length tx - lastIndex)")
  show "wf (measure (\<lambda>(modelAdd, isHtml, tx, lastIndex, st, shortened). length tx - lastIndex))"
    by simp
next
  fix modelAdd :: "'st \<Rightarrow> string \<Rightarrow> addResult \<times> 'st"
  fix isHtml tx lastIndex st shortened x2 index u x y
  assume "exec_re tx lastIndex = Some x2" "(index, u) = x2"
  then have "exec_re tx lastIndex = Some (index, u)" by simp
  from exec_re_bounds [OF this]
  have "length tx - (index + length u) < length tx - lastIndex"
    by arith
  then show "((modelAdd, isHtml, tx, index + length u, y,
      shortened @ htmlEscape isHtml (take (index - lastIndex) (drop lastIndex tx)) @
      (if isHtml then anchor (resultValue x u) else resultValue x u)),
      modelAdd, isHtml, tx, lastIndex, st, shortened)
    \<in> measure (\<lambda>(modelAdd, isHtml, tx, lastIndex, st, shortened). length tx - lastIndex)"
    by simp
qed

declare textShortenLoop.simps [simp del]

definition doTextShorten ::
  "('st \<Rightarrow> string \<Rightarrow> addResult \<times> 'st) \<Rightarrow> bool \<Rightarrow> string \<Rightarrow> 'st \<Rightarrow> string \<times> 'st" where
  "doTextShorten modelAdd isHtml text st = textShortenLoop modelAdd isHtml text 0 st []"

text \<open>
  The claim's words, to compare the loop with: the text cut into pieces, plain text and
  matched URLs in turn (\<open>pieces\<close>); what it is for a list of pieces to be the scan of a
  text from left to right (\<open>scans\<close>: a URL piece is a match, no match starts in the plain
  piece before it, and the scan goes on after it); and the output made piece by piece
  (\<open>render\<close>).
\<close>

datatype piece = Plain string | Link string

fun pieceText :: "piece \<Rightarrow> string" where
  "pieceText (Plain t) = t"
| "pieceText (Link u) = u"

function pieces :: "string \<Rightarrow> piece list" where
  "pieces text =
     (case search text of
        None \<Rightarrow> [Plain text]
      | Some (i, n) \<Rightarrow> Plain (take i text) # Link (take n (drop i text)) # pieces (drop (i + n) text))"
  by pat_completeness auto
termination
proof (relation "measure length")
  show "wf (measure length)"
    by simp
next
  fix tx :: string and x2 i n
  assume "search tx = Some x2" "(i, n) = x2"
  then have "search tx = Some (i, n)" by simp
  from search_bounds [OF this] have "length tx - (i + n) < length tx"
    by arith
  then show "(drop (i + n) tx, tx) \<in> measure length"
    by simp
qed

declare pieces.simps [simp del]

inductive scans :: "string \<Rightarrow> piece list \<Rightarrow> bool" where
  no_match: "(\<forall>j. matchUrlRe (drop j t) = None) \<Longrightarrow> scans t [Plain t]"
| match: "matchUrlRe (u @ r) = Some (length u) \<Longrightarrow>
          (\<forall>j < length a. matchUrlRe (drop j (a @ u @ r)) = None) \<Longrightarrow>
          scans r ps \<Longrightarrow> scans (a @ u @ r) (Plain a # Link u # ps)"

fun render ::
  "('st \<Rightarrow> string \<Rightarrow> addResult \<times> 'st) \<Rightarrow> bool \<Rightarrow> piece list \<Rightarrow> 'st \<Rightarrow> string \<times> 'st"
where
  "render modelAdd isHtml [] st = ([], st)"
| "render modelAdd isHtml (Plain t # ps) st =
     (case render modelAdd isHtml ps st of (r, st') \<Rightarrow> (htmlEscape isHtml t @ r, st'))"
| "render modelAdd isHtml (Link u # ps) st =
     (case modelAdd st u of
        (result, st1) \<Rightarrow>
          (case render modelAdd isHtml ps st1 of
             (r, st2) \<Rightarrow>
               ((if isHtml then anchor (resultValue result u) else resultValue result u) @ r,
                st2)))"

text \<open>Two models used as examples: one whose \<open>add\<close> always throws, one whose \<open>add\<close> always
  returns the same short URL.\<close>

definition alwaysThrows :: "unit \<Rightarrow> string \<Rightarrow> addResult \<times> unit" where
  "alwaysThrows st u = (Threw, ())"

definition fixedValue :: "unit \<Rightarrow> string \<Rightarrow> addResult \<times> unit" where
  "fixedValue st u = (Resolved (Some ''http://s.ly/1''), ())"

section \<open>Facts about the string functions\<close>

lemma indexOf_char:
  "indexOf s [c] = (if c \<in> set s then Some (length (takeWhile (\<lambda>x. x \<noteq> c) s)) else None)"
  by (induction s) auto

lemma take_takeWhile_length: "take (length (takeWhile P s)) s = takeWhile P s"
  by (induction s) auto

lemma drop_Suc_takeWhile_length: "drop (Suc (length (takeWhile P s))) s = tl (dropWhile P s)"
  by (induction s) auto

lemma takeWhile_absent: "c \<notin> set s \<Longrightarrow> takeWhile (\<lambda>x. x \<noteq> c) s = s"
  by (induction s) auto

lemma indexOf_None_iff: "indexOf s pat = None \<longleftrightarrow> \<not> sublist pat s"
  by (induction s) (auto simp: sublist_Cons_right)

lemma indexOf_Some_decomp:
  "indexOf s pat = Some i \<Longrightarrow> s = take i s @ pat @ drop (i + length pat) s"
proof (induction s arbitrary: i)
  case Nil
  then show ?case by (simp split: if_splits)
next
  case (Cons c cs)
  show ?case
  proof (cases "prefix pat (c # cs)")
    case True
    then obtain zs where "c # cs = pat @ zs"
      by (auto simp: prefix_def)
    moreover from True Cons.prems have "i = 0" by simp
    ultimately show ?thesis by simp
  next
    case False
    with Cons.prems obtain j where j: "indexOf cs pat = Some j" "i = Suc j"
      by auto
    from Cons.IH [OF j(1)] j(2) show ?thesis by simp
  qed
qed

lemma indexOf_Some_le: "indexOf s pat = Some i \<Longrightarrow> i + length pat \<le> length s"
proof (induction s arbitrary: i)
  case Nil
  then show ?case by (simp split: if_splits)
next
  case (Cons c cs)
  then show ?case
    by (auto split: if_splits dest: prefix_length_le)
qed

lemma charCode_toLowerChar:
  "charCode (toLowerChar c) =
     (if (65 \<le> charCode c \<and> charCode c \<le> 90) \<or>
         (192 \<le> charCode c \<and> charCode c \<le> 222 \<and> charCode c \<noteq> 215)
      then charCode c + 32 else charCode c)"
  by (auto simp: toLowerChar_def charCode_def)

lemma charCode_inj: "charCode c = charCode d \<longleftrightarrow> c = d"
  by (simp add: charCode_def)

lemma toLowerChar_slash: "toLowerChar c = CHR ''/'' \<longleftrightarrow> c = CHR ''/''"
proof -
  have "toLowerChar c = CHR ''/'' \<longleftrightarrow> charCode (toLowerChar c) = charCode CHR ''/''"
    by (simp only: charCode_inj)
  also have "\<dots> \<longleftrightarrow> charCode c = charCode CHR ''/''"
    by (auto simp: charCode_toLowerChar) (simp_all add: charCode_def)
  finally show ?thesis by (simp only: charCode_inj)
qed

lemma toLowerChar_colon: "toLowerChar c = CHR '':'' \<longleftrightarrow> c = CHR '':''"
proof -
  have "toLowerChar c = CHR '':'' \<longleftrightarrow> charCode (toLowerChar c) = charCode CHR '':''"
    by (simp only: charCode_inj)
  also have "\<dots> \<longleftrightarrow> charCode c = charCode CHR '':''"
    by (auto simp: charCode_toLowerChar) (simp_all add: charCode_def)
  finally show ?thesis by (simp only: charCode_inj)
qed

section \<open>Base validation: what is accepted\<close>

lemma partOk_iff:
  "partOk part \<longleftrightarrow>
     part \<noteq> [] \<and> (\<forall>c \<in> set part. baseChar c) \<and> hd part \<noteq> CHR ''-'' \<and> last part \<noteq> CHR ''-''"
  by (cases part)
    (auto simp: partOk_def baseRegex_def charAt_def list_all_iff last_conv_nth hd_conv_nth)

lemma validateBase_alt:
  "validateBase b =
     ((if CHR '':'' \<in> set b
       then (case parseInt (tl (dropWhile (\<lambda>c. c \<noteq> CHR '':'') b)) of
               None \<Rightarrow> False | Some n \<Rightarrow> 1 \<le> n \<and> n < 65536)
       else True) \<and>
      list_all partOk (split_js CHR ''.'' (takeWhile (\<lambda>c. c \<noteq> CHR '':'') b)) \<and>
      length b < 254)"
proof (cases "CHR '':'' \<in> set b")
  case False
  then show ?thesis
    by (simp add: validateBase_def indexOf_char takeWhile_absent)
next
  case True
  then show ?thesis
    by (auto simp add: validateBase_def indexOf_char take_takeWhile_length
        drop_Suc_takeWhile_length split: option.split)
qed

lemma stub_validateBase_alt:
  "stub_validateBase b =
     ((if CHR '':'' \<in> set b
       then (case parseInt (tl (dropWhile (\<lambda>c. c \<noteq> CHR '':'') b)) of
               None \<Rightarrow> False | Some n \<Rightarrow> 1 \<le> n \<and> n < 65536)
       else True) \<and>
      partOk (takeWhile (\<lambda>c. c \<noteq> CHR '':'') b))"
proof (cases "CHR '':'' \<in> set b")
  case False
  then show ?thesis
    by (simp add: stub_validateBase_def indexOf_char takeWhile_absent)
next
  case True
  then show ?thesis
    by (auto simp add: stub_validateBase_def indexOf_char take_takeWhile_length
        drop_Suc_takeWhile_length split: option.split)
qed

lemma port_case_iff:
  "(case parseInt p of None \<Rightarrow> False | Some n \<Rightarrow> 1 \<le> n \<and> n < 65536) \<longleftrightarrow>
     (\<exists>n. parseInt p = Some n \<and> 1 \<le> n \<and> n \<le> 65535)"
  by (cases "parseInt p") auto

text \<open>
  C7 (as amended). In the store-backed engine, \<open>validateBase\<close> accepts a base exactly when
  every part of the host (the text before the first colon, split at the dots) is a
  non-empty run of letters, digits, dots and hyphens that neither starts nor ends with a
  hyphen; the text after the first colon, when there is a colon, is read by \<open>parseInt\<close>
  as an integer from 1 to 65535 (\<open>parseInt\<close> reads the leading number and ignores what
  follows it); and the base is shorter than 254 characters. The unfinished copy of the
  engine applies the three tests to the host as one piece and has no bound on the length.
  The store-backed engine calls \<open>validateBase\<close> in two places: a URL parses only if its
  base is accepted, and the factory \<open>make\<close>, given a good database URL, answers
  \<open>BAD_SHORTENER_BASE\<close> exactly when the shortener base is not accepted.
\<close>

theorem validateBase_accepts:
  "(validateBase b \<longleftrightarrow>
      (\<forall>part \<in> set (split_js CHR ''.'' (takeWhile (\<lambda>c. c \<noteq> CHR '':'') b)).
         part \<noteq> [] \<and> (\<forall>c \<in> set part. baseChar c) \<and>
         hd part \<noteq> CHR ''-'' \<and> last part \<noteq> CHR ''-'') \<and>
      (CHR '':'' \<in> set b \<longrightarrow>
         (\<exists>n. parseInt (tl (dropWhile (\<lambda>c. c \<noteq> CHR '':'') b)) = Some n \<and>
              1 \<le> n \<and> n \<le> 65535)) \<and>
      length b < 254) \<and>
   (stub_validateBase b \<longleftrightarrow>
      takeWhile (\<lambda>c. c \<noteq> CHR '':'') b \<noteq> [] \<and>
      (\<forall>c \<in> set (takeWhile (\<lambda>c. c \<noteq> CHR '':'') b). baseChar c) \<and>
      hd (takeWhile (\<lambda>c. c \<noteq> CHR '':'') b) \<noteq> CHR ''-'' \<and>
      last (takeWhile (\<lambda>c. c \<noteq> CHR '':'') b) \<noteq> CHR ''-'' \<and>
      (CHR '':'' \<in> set b \<longrightarrow>
         (\<exists>n. parseInt (tl (dropWhile (\<lambda>c. c \<noteq> CHR '':'') b)) = Some n \<and>
              1 \<le> n \<and> n \<le> 65535))) \<and>
   (getUrlParts u = Inr p \<longrightarrow> validateBase (base p)) \<and>
   (validateScheme (getUrlParts m) mongodbRegex = Inr mp \<longrightarrow>
      ((\<exists>e. make_js m b stored = Inl e \<and> code e = ''BAD_SHORTENER_BASE'') \<longleftrightarrow>
         \<not> validateBase b))"
proof -
  have 1: "validateBase b \<longleftrightarrow>
      (\<forall>part \<in> set (split_js CHR ''.'' (takeWhile (\<lambda>c. c \<noteq> CHR '':'') b)).
         part \<noteq> [] \<and> (\<forall>c \<in> set part. baseChar c) \<and>
         hd part \<noteq> CHR ''-'' \<and> last part \<noteq> CHR ''-'') \<and>
      (CHR '':'' \<in> set b \<longrightarrow>
         (\<exists>n. parseInt (tl (dropWhile (\<lambda>c. c \<noteq> CHR '':'') b)) = Some n \<and>
              1 \<le> n \<and> n \<le> 65535)) \<and>
      length b < 254"
    unfolding validateBase_alt list_all_iff partOk_iff port_case_iff
    by (cases "CHR '':'' \<in> set b") (simp_all, blast+)
  have 2: "stub_validateBase b \<longleftrightarrow>
      takeWhile (\<lambda>c. c \<noteq> CHR '':'') b \<noteq> [] \<and>
      (\<forall>c \<in> set (takeWhile (\<lambda>c. c \<noteq> CHR '':'') b). baseChar c) \<and>
      hd (takeWhile (\<lambda>c. c \<noteq> CHR '':'') b) \<noteq> CHR ''-'' \<and>
      last (takeWhile (\<lambda>c. c \<noteq> CHR '':'') b) \<noteq> CHR ''-'' \<and>
      (CHR '':'' \<in> set b \<longrightarrow>
         (\<exists>n. parseInt (tl (dropWhile (\<lambda>c. c \<noteq> CHR '':'') b)) = Some n \<and>
              1 \<le> n \<and> n \<le> 65535))"
    unfolding stub_validateBase_alt partOk_iff port_case_iff
    by (cases "CHR '':'' \<in> set b") (simp_all, blast+)
  have 3: "validateBase (base p)" if "getUrlParts u = Inr p"
    using that unfolding getUrlParts_def
    by (auto simp: Let_def split: option.splits if_splits)
  have 4: "(\<exists>e. make_js m b stored = Inl e \<and> code e = ''BAD_SHORTENER_BASE'') \<longleftrightarrow>
      \<not> validateBase b" if "validateScheme (getUrlParts m) mongodbRegex = Inr mp"
    using that by (simp add: make_js_def)
  from 1 2 3 4 show ?thesis
    by (intro conjI impI)
qed

theorem validateBase_accepts_witness:
  "validateBase ''a.com:80'' \<and> stub_validateBase ''a.com:80'' \<and> \<not> validateBase ''a.-b''"
proof -
  have ev: "parseInt ''80'' = Some 80"
    by code_simp
  have host: "takeWhile (\<lambda>c. c \<noteq> CHR '':'') ''a.com:80'' = ''a.com''"
    "tl (dropWhile (\<lambda>c. c \<noteq> CHR '':'') ''a.com:80'') = ''80''"
    "split_js CHR ''.'' ''a.com'' = [''a'', ''com'']"
    "takeWhile (\<lambda>c. c \<noteq> CHR '':'') ''a.-b'' = ''a.-b''"
    "split_js CHR ''.'' ''a.-b'' = [''a'', ''-b'']"
    by simp_all
  have chars: "\<forall>c \<in> set ''a.com''. baseChar c"
    by (simp add: baseChar_def charCode_def)
  show ?thesis
    using validateBase_accepts [of "''a.com:80''"] validateBase_accepts [of "''a.-b''"]
    unfolding host using ev chars by simp
qed

text \<open>
  C7 (as stated) fails on the unfinished copy: it accepts the base \<open>a.-b\<close>, whose second
  part starts with a hyphen.
\<close>

theorem stub_validateBase_counterexample:
  "stub_validateBase ''a.-b'' \<and> ''-b'' \<in> set (split_js CHR ''.'' ''a.-b'') \<and>
   hd ''-b'' = CHR ''-''"
  by code_simp

section \<open>Parsing: the result in closed form\<close>

lemma getUrlParts_eq:
  "getUrlParts u =
     (case indexOf u ''://'' of
        None \<Rightarrow> Inl (setUrlSyntaxError u)
      | Some i \<Rightarrow>
          if i = 0 \<or> drop (i + 3) u = [] \<or> hd (drop (i + 3) u) = CHR ''/'' \<or>
             \<not> validateBase (toLowerCase (takeWhile (\<lambda>c. c \<noteq> CHR ''/'') (drop (i + 3) u)))
          then Inl (setUrlSyntaxError u)
          else Inr \<lparr>scheme = toLowerCase (take i u),
                    base = toLowerCase (takeWhile (\<lambda>c. c \<noteq> CHR ''/'') (drop (i + 3) u)),
                    domain = takeWhile (\<lambda>c. c \<noteq> CHR '':'')
                      (toLowerCase (takeWhile (\<lambda>c. c \<noteq> CHR ''/'') (drop (i + 3) u))),
                    rest = (if CHR ''/'' \<in> set (drop (i + 3) u)
                            then Some (dropWhile (\<lambda>c. c \<noteq> CHR ''/'') (drop (i + 3) u)) else None),
                    baseRest = toLowerCase (drop (i + 3) u),
                    url = toLowerCase (take i u) @ ''://'' @ toLowerCase (drop (i + 3) u)\<rparr>)"
proof (cases "indexOf u ''://''")
  case None
  then show ?thesis by (simp add: getUrlParts_def)
next
  case (Some i)
  define r where "r = drop (i + 3) u"
  define b where "b = toLowerCase (takeWhile (\<lambda>c. c \<noteq> CHR ''/'') r)"
  have le: "i + 3 \<le> length u"
    using indexOf_Some_le [OF Some] by simp
  have c1: "length u = i + 3 \<longleftrightarrow> r = []"
    using le by (auto simp: r_def)
  have c2: "charAt u (i + 3) = Some CHR ''/'' \<longleftrightarrow> r \<noteq> [] \<and> hd r = CHR ''/''"
    using le by (auto simp: r_def charAt_def hd_drop_conv_nth)
  have b1: "(case indexOf r ''/'' of None \<Rightarrow> toLowerCase r | Some j \<Rightarrow> toLowerCase (take j r)) = b"
    by (simp add: indexOf_char b_def take_takeWhile_length takeWhile_absent)
  have r1: "(case indexOf r ''/'' of None \<Rightarrow> None | Some j \<Rightarrow> Some (drop (i + 3 + j) u)) =
      (if CHR ''/'' \<in> set r then Some (dropWhile (\<lambda>c. c \<noteq> CHR ''/'') r) else None)"
    by (simp add: indexOf_char r_def add.commute [of _ "length _"] flip: drop_drop dropWhile_eq_drop)
  have d1: "take (case indexOf b '':'' of None \<Rightarrow> length b | Some k \<Rightarrow> k) b =
      takeWhile (\<lambda>c. c \<noteq> CHR '':'') b"
    by (simp add: indexOf_char take_takeWhile_length takeWhile_absent)
  show ?thesis
    unfolding getUrlParts_def Some option.case Let_def
    unfolding r_def [symmetric] c1 c2 b1 r1 d1
    unfolding b_def
    by (auto simp: r_def)
qed

lemma getUrlParts_Inl: "getUrlParts u = Inl e \<Longrightarrow> e = setUrlSyntaxError u"
  by (auto simp: getUrlParts_eq split: option.splits if_splits)

lemma getUrlParts_Inr:
  assumes "getUrlParts u = Inr p"
  shows "\<exists>i. indexOf u ''://'' = Some i \<and> 0 < i \<and> drop (i + 3) u \<noteq> [] \<and>
           hd (drop (i + 3) u) \<noteq> CHR ''/'' \<and>
           scheme p = toLowerCase (take i u) \<and>
           baseRest p = toLowerCase (drop (i + 3) u) \<and>
           base p = toLowerCase (takeWhile (\<lambda>c. c \<noteq> CHR ''/'') (drop (i + 3) u)) \<and>
           domain p = takeWhile (\<lambda>c. c \<noteq> CHR '':'') (base p) \<and>
           validateBase (base p) \<and>
           url p = scheme p @ ''://'' @ baseRest p"
  using assms by (auto simp: getUrlParts_eq split: option.splits if_splits)

lemma parse_Inl_code:
  "validateScheme (getUrlParts u) regex = Inl e \<Longrightarrow> code e = ''URL_SYNTAX''"
  by (auto simp: validateScheme_def setUrlSyntaxError_def split: sum.splits if_splits
      dest: getUrlParts_Inl)

lemma parse_Inr:
  "validateScheme (getUrlParts u) regex = Inr p \<longleftrightarrow> getUrlParts u = Inr p \<and> regex (scheme p)"
  by (auto simp: validateScheme_def split: sum.splits if_splits)

section \<open>The collection: \<open>findOne\<close> and \<open>updateOne\<close>\<close>

lemma updateOne_length [simp]: "length (updateOne d f c) = length c"
  by (induction c) auto

lemma updateOne_nth:
  "d \<in> set c \<Longrightarrow> \<exists>i<length c. c ! i = d \<and> updateOne d f c = c[i := f d]"
proof (induction c)
  case Nil
  then show ?case by simp
next
  case (Cons x xs)
  show ?case
  proof (cases "x = d")
    case True
    then have "0 < length (x # xs) \<and> (x # xs) ! 0 = d \<and> updateOne d f (x # xs) = (x # xs)[0 := f d]"
      by simp
    then show ?thesis by blast
  next
    case False
    with Cons obtain i where "i < length xs" "xs ! i = d" "updateOne d f xs = xs[i := f d]"
      by auto
    with False have "Suc i < length (x # xs) \<and> (x # xs) ! Suc i = d \<and>
        updateOne d f (x # xs) = (x # xs)[Suc i := f d]"
      by simp
    then show ?thesis by blast
  qed
qed

lemma updateOne_keys:
  "keys (f d) = keys d \<Longrightarrow> map keys (updateOne d f c) = map keys c"
  by (induction c) auto

lemma queryDb_mem: "queryDb c k = Some d \<Longrightarrow> d \<in> set c \<and> (longUrl d = k \<or> shortUrl d = k)"
  unfolding queryDb_def by (induction c) (auto split: if_splits)

lemma queryDb_None: "queryDb c k = None \<longleftrightarrow> (\<forall>d \<in> set c. longUrl d \<noteq> k \<and> shortUrl d \<noteq> k)"
  unfolding queryDb_def by (auto simp: find_None_iff)

lemma find_holds: "find P xs = Some x \<Longrightarrow> P x \<and> x \<in> set xs"
  by (induction xs) (auto split: if_splits)

lemma find_append_case:
  "find P (xs @ ys) = (case find P xs of Some x \<Rightarrow> Some x | None \<Rightarrow> find P ys)"
  by (induction xs) auto

lemma queryDb_updateOne:
  "queryDb c k = Some d \<Longrightarrow> keys (f d) = keys d \<Longrightarrow> queryDb (updateOne d f c) k = Some (f d)"
  unfolding queryDb_def
  by (induction c) (auto simp: keys_def split: if_splits dest: find_holds)

lemma queryDb_append:
  "queryDb (c @ [x]) k =
     (case queryDb c k of Some d \<Rightarrow> Some d
      | None \<Rightarrow> if longUrl x = k \<or> shortUrl x = k then Some x else None)"
  unfolding queryDb_def by (induction c) auto

lemma queryDb_keys:
  "map keys c = map keys c' \<Longrightarrow> map_option keys (queryDb c k) = map_option keys (queryDb c' k)"
proof (induction c arbitrary: c')
  case Nil
  then show ?case by (simp add: queryDb_def)
next
  case (Cons x xs)
  then obtain y ys where c': "c' = y # ys" "keys x = keys y" "map keys xs = map keys ys"
    by (cases c') auto
  from Cons.IH [OF c'(3)] c'(1,2) show ?case
    by (auto simp: queryDb_def keys_def)
qed

lemma queryDb_prefix:
  assumes "prefix (map keys c) (map keys c')" and "queryDb c k = Some d"
  shows "\<exists>d'. queryDb c' k = Some d' \<and> keys d' = keys d"
proof -
  from assms(1) obtain zs where "map keys c' = map keys c @ zs"
    by (auto simp: prefix_def)
  then obtain c1 c2 where c': "c' = c1 @ c2" "map keys c1 = map keys c"
    by (auto simp: map_eq_append_conv)
  from queryDb_keys [OF c'(2), of k] assms(2)
  obtain d1 where d1: "queryDb c1 k = Some d1" "keys d1 = keys d"
    by (cases "queryDb c1 k") auto
  then have "queryDb c' k = Some d1"
    by (simp add: c'(1) queryDb_def find_append_case)
  with d1 show ?thesis by blast
qed

section \<open>The store-backed engine: what each operation does\<close>

lemma add_Inl:
  "validateScheme (getUrlParts u) httpRegex = Inl e \<Longrightarrow> add s u r = (ErrorObj e, s)"
  by (simp add: add_def)

lemma add_own_domain:
  "validateScheme (getUrlParts u) httpRegex = Inr p \<Longrightarrow> domain p = SHORTENER_BASE s \<Longrightarrow>
   add s u r = (TypeError ''this.setErrMsg is not a function'', s)"
  by (simp add: add_def)

lemma add_found:
  "validateScheme (getUrlParts u) httpRegex = Inr p \<Longrightarrow> domain p \<noteq> SHORTENER_BASE s \<Longrightarrow>
   queryDb (col s) (baseRest p) = Some d \<Longrightarrow>
   add s u r = (ValueStr (scheme p @ ''://'' @ shortUrl d),
                s\<lparr>col := updateOne d (\<lambda>d. d\<lparr>active := True\<rparr>) (col s)\<rparr>)"
  by (simp add: add_def)

lemma add_new:
  "validateScheme (getUrlParts u) httpRegex = Inr p \<Longrightarrow> domain p \<noteq> SHORTENER_BASE s \<Longrightarrow>
   queryDb (col s) (baseRest p) = None \<Longrightarrow>
   add s u r = (ValueStr (scheme p @ ''://'' @ SHORTENER_BASE s @ ''/'' @ toString36 r),
                s\<lparr>col := col s @ [\<lparr>longUrl = baseRest p,
                                     shortUrl = SHORTENER_BASE s @ ''/'' @ toString36 r,
                                     active = True, queries = 0\<rparr>]\<rparr>)"
  by (simp add: add_def Let_def)

lemma exec_base: "SHORTENER_BASE (snd (exec s c)) = SHORTENER_BASE s"
  by (cases c)
    (auto simp: add_def query_def count_def deactivate_def Let_def
      split: sum.splits option.splits)

lemma exec_keys: "prefix (map keys (col s)) (map keys (col (snd (exec s c))))"
  by (cases c)
    (auto simp: add_def query_def count_def deactivate_def Let_def updateOne_keys keys_def
      split: sum.splits option.splits)

lemma run_base: "SHORTENER_BASE (run s cs) = SHORTENER_BASE s"
  by (induction cs arbitrary: s) (simp_all add: exec_base)

lemma run_keys: "prefix (map keys (col s)) (map keys (col (run s cs)))"
proof (induction cs arbitrary: s)
  case Nil
  then show ?case by simp
next
  case (Cons c cs)
  have "prefix (map keys (col s)) (map keys (col (snd (exec s c))))"
    by (rule exec_keys)
  also have "prefix \<dots> (map keys (col (run (snd (exec s c)) cs)))"
    by (rule Cons.IH)
  finally show ?case by simp
qed

lemma add_ValueStr:
  assumes "add s u r = (ValueStr v, s1)"
  shows "\<exists>p d. validateScheme (getUrlParts u) httpRegex = Inr p \<and>
           domain p \<noteq> SHORTENER_BASE s \<and>
           queryDb (col s1) (baseRest p) = Some d \<and> active d \<and>
           v = scheme p @ ''://'' @ shortUrl d"
proof (cases "validateScheme (getUrlParts u) httpRegex")
  case (Inl e)
  with assms show ?thesis by (simp add: add_Inl)
next
  case (Inr p)
  show ?thesis
  proof (cases "domain p = SHORTENER_BASE s")
    case True
    with Inr assms show ?thesis by (simp add: add_own_domain)
  next
    case False
    show ?thesis
    proof (cases "queryDb (col s) (baseRest p)")
      case None
      with Inr False assms show ?thesis
        by (auto simp: add_new queryDb_append)
    next
      case (Some d)
      have "queryDb (updateOne d (\<lambda>d. d\<lparr>active := True\<rparr>) (col s)) (baseRest p) =
          Some (d\<lparr>active := True\<rparr>)"
        by (rule queryDb_updateOne [OF Some]) (simp add: keys_def)
      with Inr False Some assms show ?thesis
        by (auto simp: add_found)
    qed
  qed
qed

lemma updateOne_longUrl:
  "longUrl (f d) = longUrl d \<Longrightarrow> map longUrl (updateOne d f c) = map longUrl c"
  by (induction c) auto

lemma exec_distinct:
  assumes "distinct (map longUrl (col s))"
  shows "distinct (map longUrl (col (snd (exec s c))))"
  using assms
  by (cases c)
    (auto simp: add_def query_def count_def deactivate_def Let_def updateOne_longUrl queryDb_None
      split: sum.splits option.splits)

lemma run_distinct:
  "distinct (map longUrl (col s)) \<Longrightarrow> distinct (map longUrl (col (run s cs)))"
  by (induction cs arbitrary: s) (simp_all add: exec_distinct)

lemma add_again:
  assumes "add s u r1 = (ValueStr v, s1)"
  shows "\<exists>p d. validateScheme (getUrlParts u) httpRegex = Inr p \<and>
           queryDb (col (run s1 cs)) (baseRest p) = Some d \<and>
           add (run s1 cs) u r2 =
             (ValueStr v, (run s1 cs)\<lparr>col := updateOne d (\<lambda>d. d\<lparr>active := True\<rparr>) (col (run s1 cs))\<rparr>)"
proof -
  from add_ValueStr [OF assms] obtain p d where
    p: "validateScheme (getUrlParts u) httpRegex = Inr p" "domain p \<noteq> SHORTENER_BASE s" and
    d: "queryDb (col s1) (baseRest p) = Some d" "v = scheme p @ ''://'' @ shortUrl d"
    by blast
  have b: "SHORTENER_BASE (run s1 cs) = SHORTENER_BASE s"
    using exec_base [of s "Add u r1"] assms by (simp add: run_base)
  from queryDb_prefix [OF run_keys d(1)] obtain d' where
    d': "queryDb (col (run s1 cs)) (baseRest p) = Some d'" "keys d' = keys d"
    by blast
  from d'(2) have "shortUrl d' = shortUrl d"
    by (simp add: keys_def)
  with add_found [OF p(1) _ d'(1), of r2] p(2) b d(2) d'(1) p(1) show ?thesis
    by auto
qed

section \<open>The counter \<open>queries\<close>\<close>

lemma updateOne_queries:
  "queries (f d) = queries d \<Longrightarrow> map queries (updateOne d f c) = map queries c"
  by (induction c) auto

lemma updateOne_fix: "f d = d \<Longrightarrow> updateOne d f c = c"
  by (induction c) auto

lemma add_queries:
  "map queries (col (snd (add s u r))) = map queries (col s) \<or>
   map queries (col (snd (add s u r))) = map queries (col s) @ [0]"
  by (auto simp: add_def Let_def updateOne_queries split: sum.splits option.splits)

lemma count_state: "snd (count s u) = s"
  by (auto simp: count_def split: sum.splits option.splits)

lemma deactivate_queries: "map queries (col (snd (deactivate s u))) = map queries (col s)"
  by (auto simp: deactivate_def updateOne_queries split: sum.splits option.splits)

lemma query_fails_state: "\<forall>v. fst (query s u) \<noteq> ValueStr v \<Longrightarrow> snd (query s u) = s"
  by (auto simp: query_def split: sum.splits option.splits if_splits)

lemma query_succeeds:
  assumes "fst (query s u) = ValueStr v"
  shows "\<exists>i<length (col s). active (col s ! i) \<and>
           col (snd (query s u)) = (col s)[i := (col s ! i)\<lparr>queries := queries (col s ! i) + 1\<rparr>]"
proof -
  from assms obtain p d where
    p: "validateScheme (getUrlParts u) httpRegex = Inr p" "domain p = SHORTENER_BASE s" and
    d: "queryDb (col s) (baseRest p) = Some d" "active d"
    by (auto simp: query_def split: sum.splits option.splits if_splits)
  then have s': "col (snd (query s u)) = updateOne d (\<lambda>x. x\<lparr>queries := queries d + 1\<rparr>) (col s)"
    by (simp add: query_def)
  from queryDb_mem [OF d(1)] have "d \<in> set (col s)" by simp
  from updateOne_nth [OF this, of "\<lambda>x. x\<lparr>queries := queries d + 1\<rparr>"] obtain i where
    "i < length (col s)" "col s ! i = d"
    "updateOne d (\<lambda>x. x\<lparr>queries := queries d + 1\<rparr>) (col s) = (col s)[i := d\<lparr>queries := queries d + 1\<rparr>]"
    by blast
  with d(2) s' show ?thesis by auto
qed

lemma map_append_nth:
  assumes "map f xs = map f ys @ zs" and "i < length ys"
  shows "i < length xs \<and> f (xs ! i) = f (ys ! i)"
proof -
  from assms(1) have "length (map f xs) = length (map f ys @ zs)"
    by simp
  with assms(2) have i: "i < length xs"
    by simp
  then have "f (xs ! i) = map f xs ! i"
    by simp
  also have "\<dots> = (map f ys @ zs) ! i"
    by (simp only: assms(1))
  also from assms(2) have "\<dots> = f (ys ! i)"
    by (simp add: nth_append)
  finally show ?thesis using i by simp
qed

lemma exec_queries_mono:
  "i < length (col s) \<Longrightarrow>
   i < length (col (snd (exec s c))) \<and> queries (col s ! i) \<le> queries (col (snd (exec s c)) ! i)"
proof (cases c)
  case (Add u r)
  assume i: "i < length (col s)"
  from add_queries [of s u r] have
    "\<exists>zs. map queries (col (snd (add s u r))) = map queries (col s) @ zs"
    by auto
  then obtain zs where "map queries (col (snd (add s u r))) = map queries (col s) @ zs" ..
  from map_append_nth [OF this i] Add show ?thesis by simp
next
  case (Query u)
  assume i: "i < length (col s)"
  show ?thesis
  proof (cases "\<exists>v. fst (query s u) = ValueStr v")
    case True
    then obtain v where "fst (query s u) = ValueStr v" by blast
    from query_succeeds [OF this] obtain j where
      "col (snd (query s u)) = (col s)[j := (col s ! j)\<lparr>queries := queries (col s ! j) + 1\<rparr>]"
      by blast
    with i Query show ?thesis
      by (cases "i = j") simp_all
  next
    case False
    then have "snd (query s u) = s"
      by (intro query_fails_state) simp
    with i Query show ?thesis by simp
  qed
next
  case (Count u)
  assume "i < length (col s)"
  with Count show ?thesis by (simp add: count_state)
next
  case (Deactivate u)
  assume i: "i < length (col s)"
  from deactivate_queries [of s u] have
    "map queries (col (snd (deactivate s u))) = map queries (col s) @ []"
    by simp
  from map_append_nth [OF this i] Deactivate show ?thesis by simp
qed

lemma run_queries_mono:
  "i < length (col s) \<Longrightarrow>
   i < length (col (run s cs)) \<and> queries (col s ! i) \<le> queries (col (run s cs) ! i)"
proof (induction cs arbitrary: s)
  case Nil
  then show ?case by simp
next
  case (Cons c cs)
  from exec_queries_mono [OF Cons.prems, of c] have
    1: "i < length (col (snd (exec s c)))" "queries (col s ! i) \<le> queries (col (snd (exec s c)) ! i)"
    by simp_all
  from Cons.IH [OF 1(1)] 1(2) show ?case by simp
qed

section \<open>Claims about the counter and about errors\<close>

text \<open>
  C5. The counter \<open>queries\<close> of an association (a position of the collection) is left as it
  is by \<open>add\<close> (a new association starts at 0), by \<open>count\<close> and by \<open>deactivate\<close>; a
  \<open>query\<close> that succeeds adds exactly one to the counter of one association and changes
  nothing else; a \<open>query\<close> that fails changes nothing; and over any run of operations the
  counter of an association never decreases (so it is never reset, whatever is deactivated or
  added again in between). The counter is a natural number here: the bound 2^53 of a
  JavaScript number is not modelled.
\<close>

theorem queries_counter:
  "(map queries (col (snd (add s u r))) = map queries (col s) \<or>
    map queries (col (snd (add s u r))) = map queries (col s) @ [0]) \<and>
   snd (count s u) = s \<and>
   map queries (col (snd (deactivate s u))) = map queries (col s) \<and>
   ((\<exists>v. fst (query s u) = ValueStr v) \<longrightarrow>
      (\<exists>i<length (col s).
         col (snd (query s u)) = (col s)[i := (col s ! i)\<lparr>queries := queries (col s ! i) + 1\<rparr>])) \<and>
   ((\<forall>v. fst (query s u) \<noteq> ValueStr v) \<longrightarrow> snd (query s u) = s) \<and>
   (i < length (col s) \<longrightarrow>
      i < length (col (run s cs)) \<and> queries (col s ! i) \<le> queries (col (run s cs) ! i))"
proof -
  have "\<exists>i<length (col s).
      col (snd (query s u)) = (col s)[i := (col s ! i)\<lparr>queries := queries (col s ! i) + 1\<rparr>]"
    if "\<exists>v. fst (query s u) = ValueStr v"
    using that query_succeeds [of s u] by blast
  then show ?thesis
    using add_queries [of s u r] count_state [of s u] deactivate_queries [of s u]
      query_fails_state [of s u] run_queries_mono [of i s cs]
    by blast
qed

theorem queries_counter_witness:
  "col (snd (query oneStore ''http://short.ly/7'')) =
     [\<lparr>longUrl = ''a.com'', shortUrl = ''short.ly/7'', active = True, queries = 1\<rparr>] \<and>
   queries (col oneStore ! 0) \<le>
     queries (col (run oneStore [Query ''http://short.ly/7'', Deactivate ''http://a.com'',
        Add ''http://a.com'' 3]) ! 0)"
proof -
  have ok: "fst (query oneStore ''http://short.ly/7'') = ValueStr ''http://a.com''"
    by code_simp
  have len: "length (col oneStore) = 1" and
    c0: "col oneStore = [\<lparr>longUrl = ''a.com'', shortUrl = ''short.ly/7'', active = True, queries = 0\<rparr>]"
    by (simp_all add: oneStore_def)
  from queries_counter [of oneStore "''http://short.ly/7''" 0 0
      "[Query ''http://short.ly/7'', Deactivate ''http://a.com'', Add ''http://a.com'' 3]"] ok
  have "(\<exists>i<length (col oneStore).
         col (snd (query oneStore ''http://short.ly/7'')) =
           (col oneStore)[i := (col oneStore ! i)\<lparr>queries := queries (col oneStore ! i) + 1\<rparr>])"
    and "0 < length (col oneStore) \<longrightarrow>
      queries (col oneStore ! 0) \<le>
     queries (col (run oneStore [Query ''http://short.ly/7'', Deactivate ''http://a.com'',
        Add ''http://a.com'' 3]) ! 0)"
    by blast+
  then show ?thesis
    unfolding len by (simp add: c0)
qed

text \<open>
  C4 fails on the code: \<open>add\<close> of a URL whose domain is the shortener's base raises a
  \<open>TypeError\<close> (the method calls \<open>this.setErrMsg\<close>, which the class does not define) instead
  of returning a \<open>DOMAIN\<close> error object.
\<close>

theorem add_raises_on_own_domain:
  "add emptyStore ''http://short.ly/page'' 7 =
     (TypeError ''this.setErrMsg is not a function'', emptyStore)"
  by code_simp

text \<open>
  C8, on a URL that parses with the schemes http and https. \<open>query\<close> returns a \<open>DOMAIN\<close>
  error exactly when the domain of the URL (its host, without the port) differs from the
  string \<open>SHORTENER_BASE\<close>. \<open>add\<close> never returns an error object for such a URL: when the
  domain equals \<open>SHORTENER_BASE\<close> it raises a \<open>TypeError\<close>, where the claim asks for a
  \<open>DOMAIN\<close> error.
\<close>

theorem domain_errors:
  assumes "validateScheme (getUrlParts u) httpRegex = Inr p"
  shows "(\<forall>e. fst (add s u r) \<noteq> ErrorObj e) \<and>
    (fst (add s u r) = TypeError ''this.setErrMsg is not a function'' \<longleftrightarrow>
       domain p = SHORTENER_BASE s) \<and>
    ((\<exists>e. fst (query s u) = ErrorObj e \<and> code e = ''DOMAIN'') \<longleftrightarrow>
       domain p \<noteq> SHORTENER_BASE s)"
  using assms
  by (auto simp: add_def query_def Let_def setErrMsg_def split: option.splits)

theorem domain_errors_witness:
  "fst (add emptyStore ''https://short.ly/x'' 1) = TypeError ''this.setErrMsg is not a function'' \<and>
   fst (query emptyStore ''https://a.com/x'') =
     ErrorObj \<lparr>code = ''DOMAIN'', message = ''DOMAIN: domain of url a.com not equal to short.ly''\<rparr>"
proof -
  have p1: "validateScheme (getUrlParts ''https://short.ly/x'') httpRegex =
      Inr \<lparr>scheme = ''https'', base = ''short.ly'', domain = ''short.ly'', rest = Some ''/x'',
           baseRest = ''short.ly/x'', url = ''https://short.ly/x''\<rparr>"
    by code_simp
  have q: "fst (query emptyStore ''https://a.com/x'') =
     ErrorObj \<lparr>code = ''DOMAIN'', message = ''DOMAIN: domain of url a.com not equal to short.ly''\<rparr>"
    by code_simp
  from domain_errors [OF p1, of emptyStore 1] q show ?thesis
    by (simp add: emptyStore_def)
qed

section \<open>Deactivation\<close>

lemma deactivate_found:
  "validateScheme (getUrlParts u) httpRegex = Inr p \<Longrightarrow>
   queryDb (col s) (baseRest p) = Some d \<Longrightarrow>
   deactivate s u = (Empty, s\<lparr>col := updateOne d (\<lambda>d. d\<lparr>active := False\<rparr>) (col s)\<rparr>)"
  by (simp add: deactivate_def)

lemma deactivate_Empty:
  assumes "validateScheme (getUrlParts u) httpRegex = Inr p" and "deactivate s u = (Empty, s1)"
  shows "\<exists>d. queryDb (col s) (baseRest p) = Some d \<and>
           queryDb (col s1) (baseRest p) = Some (d\<lparr>active := False\<rparr>) \<and>
           SHORTENER_BASE s1 = SHORTENER_BASE s"
proof (cases "queryDb (col s) (baseRest p)")
  case None
  with assms show ?thesis by (simp add: deactivate_def)
next
  case (Some d)
  have "queryDb (updateOne d (\<lambda>d. d\<lparr>active := False\<rparr>) (col s)) (baseRest p) =
      Some (d\<lparr>active := False\<rparr>)"
    by (rule queryDb_updateOne [OF Some]) (simp add: keys_def)
  with assms Some show ?thesis
    by (auto simp: deactivate_found)
qed

text \<open>
  C3 (as amended). Let \<open>u\<close> be a URL that parses. If \<open>deactivate u\<close> succeeds and the domain
  of \<open>u\<close> is \<open>SHORTENER_BASE\<close> (so \<open>query\<close> takes \<open>u\<close> as a short URL), then \<open>query u\<close> right
  after it fails with \<open>NOT_FOUND\<close>. After a successful \<open>deactivate u\<close>, \<open>count u\<close> returns the
  number it returned before, and a second \<open>deactivate u\<close> succeeds again and changes
  nothing. \<open>deactivate\<close> succeeds whenever a document is found for \<open>u\<close>, active or not, and
  fails with \<open>NOT_FOUND\<close> when none is.
\<close>

theorem deactivate_then_query:
  assumes "validateScheme (getUrlParts u) httpRegex = Inr p"
  shows "(deactivate s u = (Empty, s1) \<and> domain p = SHORTENER_BASE s \<longrightarrow>
            (\<exists>e. query s1 u = (ErrorObj e, s1) \<and> code e = ''NOT_FOUND'')) \<and>
         (deactivate s u = (Empty, s1) \<longrightarrow>
            (\<exists>n. count s u = (ValueNum n, s) \<and> count s1 u = (ValueNum n, s1)) \<and>
            deactivate s1 u = (Empty, s1)) \<and>
         ((\<exists>d. queryDb (col s) (baseRest p) = Some d) \<longrightarrow> fst (deactivate s u) = Empty) \<and>
         (queryDb (col s) (baseRest p) = None \<longrightarrow>
            (\<exists>e. deactivate s u = (ErrorObj e, s) \<and> code e = ''NOT_FOUND''))"
proof (intro conjI impI)
  assume "deactivate s u = (Empty, s1) \<and> domain p = SHORTENER_BASE s"
  then have a: "deactivate s u = (Empty, s1)" and b: "domain p = SHORTENER_BASE s"
    by simp_all
  from deactivate_Empty [OF assms a] obtain d where
    "queryDb (col s1) (baseRest p) = Some (d\<lparr>active := False\<rparr>)" "SHORTENER_BASE s1 = SHORTENER_BASE s"
    by blast
  with assms b show "\<exists>e. query s1 u = (ErrorObj e, s1) \<and> code e = ''NOT_FOUND''"
    by (simp add: query_def setErrMsg_def)
next
  assume a: "deactivate s u = (Empty, s1)"
  from deactivate_Empty [OF assms a] obtain d where
    d: "queryDb (col s) (baseRest p) = Some d"
    "queryDb (col s1) (baseRest p) = Some (d\<lparr>active := False\<rparr>)"
    by blast
  with assms show "\<exists>n. count s u = (ValueNum n, s) \<and> count s1 u = (ValueNum n, s1)"
    by (simp add: count_def)
  have "updateOne (d\<lparr>active := False\<rparr>) (\<lambda>d. d\<lparr>active := False\<rparr>) (col s1) = col s1"
    by (rule updateOne_fix) simp
  with deactivate_found [OF assms d(2)] show "deactivate s1 u = (Empty, s1)"
    by simp
next
  assume "\<exists>d. queryDb (col s) (baseRest p) = Some d"
  with assms show "fst (deactivate s u) = Empty"
    by (auto simp: deactivate_def)
next
  assume "queryDb (col s) (baseRest p) = None"
  with assms show "\<exists>e. deactivate s u = (ErrorObj e, s) \<and> code e = ''NOT_FOUND''"
    by (simp add: deactivate_def setErrMsg_def)
qed

theorem deactivate_then_query_witness:
  "query offStore ''http://short.ly/7'' =
     (ErrorObj \<lparr>code = ''NOT_FOUND'', message = ''NOT_FOUND: http://short.ly/7 not found''\<rparr>,
      offStore) \<and>
   count offStore ''http://short.ly/7'' = (ValueNum 0, offStore) \<and>
   deactivate offStore ''http://short.ly/7'' = (Empty, offStore) \<and>
   fst (deactivate emptyStore ''http://short.ly/7'') =
     ErrorObj \<lparr>code = ''NOT_FOUND'', message = ''NOT_FOUND: http://short.ly/7 not found''\<rparr>"
proof -
  have p: "validateScheme (getUrlParts ''http://short.ly/7'') httpRegex =
      Inr \<lparr>scheme = ''http'', base = ''short.ly'', domain = ''short.ly'', rest = Some ''/7'',
           baseRest = ''short.ly/7'', url = ''http://short.ly/7''\<rparr>"
    by code_simp
  have d: "deactivate oneStore ''http://short.ly/7'' = (Empty, offStore)"
    by code_simp
  have c: "count oneStore ''http://short.ly/7'' = (ValueNum 0, oneStore)"
    by code_simp
  have b: "SHORTENER_BASE oneStore = ''short.ly''" "col emptyStore = []"
    by (simp_all add: oneStore_def emptyStore_def)
  have n: "queryDb [] ''short.ly/7'' = None"
    by (simp add: queryDb_def)
  from deactivate_then_query [OF p, of oneStore offStore] d b c
  have 1: "\<exists>e. query offStore ''http://short.ly/7'' = (ErrorObj e, offStore) \<and> code e = ''NOT_FOUND''"
    and 2: "count offStore ''http://short.ly/7'' = (ValueNum 0, offStore)"
    and 3: "deactivate offStore ''http://short.ly/7'' = (Empty, offStore)"
    by auto
  from deactivate_then_query [OF p, of emptyStore] b n
  have 4: "\<exists>e. deactivate emptyStore ''http://short.ly/7'' = (ErrorObj e, emptyStore) \<and>
      code e = ''NOT_FOUND''"
    by simp
  have 5: "query offStore ''http://short.ly/7'' =
     (ErrorObj \<lparr>code = ''NOT_FOUND'', message = ''NOT_FOUND: http://short.ly/7 not found''\<rparr>,
      offStore)"
    by code_simp
  have 6: "fst (deactivate emptyStore ''http://short.ly/7'') =
     ErrorObj \<lparr>code = ''NOT_FOUND'', message = ''NOT_FOUND: http://short.ly/7 not found''\<rparr>"
    by code_simp
  from 1 2 3 4 5 6 show ?thesis by simp
qed

text \<open>
  C3 (as stated) fails for a registered long URL: \<open>deactivate\<close> accepts it, and the
  \<open>query\<close> that follows fails with \<open>DOMAIN\<close>, not \<open>NOT_FOUND\<close>.
\<close>

theorem deactivate_then_query_counterexample:
  "add emptyStore ''http://a.com'' 7 = (ValueStr ''http://short.ly/7'', oneStore) \<and>
   deactivate oneStore ''http://a.com'' = (Empty, offStore) \<and>
   query offStore ''http://a.com'' =
     (ErrorObj \<lparr>code = ''DOMAIN'', message = ''DOMAIN: domain of url a.com not equal to short.ly''\<rparr>,
      offStore)"
  by code_simp


section \<open>The in-memory engine: what stays\<close>

lemma lookup_Ref: "lookup g m k = Ref a \<longleftrightarrow> m k = Some a"
  by (auto simp: lookup_def inherited_def split: option.splits)

lemma lookup_Some: "m k = Some a \<Longrightarrow> lookup g m k = Ref a"
  by (simp add: lookup_def)

lemma lookup_None: "m k = None \<Longrightarrow> lookup g m k = inherited g k"
  by (simp add: lookup_def)

lemma lookup_falsy:
  "\<not> truthy (lookup g m k) \<Longrightarrow> m k = None \<and> k \<noteq> ''constructor'' \<and> k \<noteq> ''__proto__''"
  by (auto simp: lookup_def inherited_def split: option.splits)

lemma lookup_cases:
  obtains (own) a where "m k = Some a" "lookup g m k = Ref a"
  | (fn) "m k = None" "k = ''constructor''" "lookup g m k = ObjectFunction"
  | (proto) "m k = None" "k = ''__proto__''" "lookup g m k = ObjectPrototype"
  | (true) "m k = None" "lookup g m k = Boolean True" "inherited g k = Boolean True"
  | (falsy) "m k = None" "k \<noteq> ''constructor''" "k \<noteq> ''__proto__''"
      "lookup g m k = Boolean False \<or> lookup g m k = NaN \<or> lookup g m k = Undefined"
proof (cases "m k")
  case (Some a)
  then show ?thesis using own by (simp add: lookup_def)
next
  case None
  then have l: "lookup g m k = inherited g k"
    by (simp add: lookup_def)
  show ?thesis
  proof (cases "inherited g k")
    case (Ref a)
    then show ?thesis by (auto simp: inherited_def split: if_splits option.splits)
  next
    case ObjectFunction
    then have "k = ''constructor''"
      by (auto simp: inherited_def split: if_splits option.splits)
    with None l ObjectFunction show ?thesis using fn by simp
  next
    case ObjectPrototype
    then have "k = ''__proto__''"
      by (auto simp: inherited_def split: if_splits option.splits)
    with None l ObjectPrototype show ?thesis using proto by simp
  next
    case (Boolean b)
    then have k: "k \<noteq> ''constructor''" "k \<noteq> ''__proto__''"
      by (auto simp: inherited_def split: if_splits option.splits)
    show ?thesis
    proof (cases b)
      case True
      with None l Boolean show ?thesis using true by simp
    next
      case False
      with None l Boolean k show ?thesis using falsy by simp
    qed
  next
    case NaN
    then have k: "k \<noteq> ''constructor''" "k \<noteq> ''__proto__''"
      by (auto simp: inherited_def split: if_splits option.splits)
    with None l NaN show ?thesis using falsy by simp
  next
    case Undefined
    then have k: "k \<noteq> ''constructor''" "k \<noteq> ''__proto__''"
      by (auto simp: inherited_def split: if_splits option.splits)
    with None l Undefined show ?thesis using falsy by simp
  qed
qed

lemma nth_update_field: "f x = f (xs ! b) \<Longrightarrow> f (xs[b := x] ! a) = f (xs ! a)"
  by (cases "b < length xs") (auto simp: nth_list_update list_update_beyond)

lemma prj1_add_own:
  assumes "prj1_getUrlParts u = Inr p" and "domain1 p \<noteq> SHORTENER_DOMAIN t"
    and "LONG_ACCESS t (domainRest1 p) = Some a"
  shows "prj1_add t u r =
           (ValueStr (scheme1 p @ shortUrl (heap t ! a)),
            t\<lparr>heap := (heap t)[a := (heap t ! a)\<lparr>active := True\<rparr>]\<rparr>)"
  using assms by (simp add: prj1_add_def lookup_Some)

lemma prj1_add_falsy:
  assumes "prj1_getUrlParts u = Inr p" and "domain1 p \<noteq> SHORTENER_DOMAIN t"
    and "\<not> truthy (lookup (realm t) (LONG_ACCESS t) (domainRest1 p))"
  shows "prj1_add t u r =
           (let sUrl = (case SHORT_ACCESS t (domainRest1 p) of
                          Some a \<Rightarrow> shortUrl (heap t ! a)
                        | None \<Rightarrow> SHORTENER_DOMAIN t @ ''/'' @ toString36 r)
            in (ValueStr (scheme1 p @ sUrl),
                t\<lparr>heap := heap t @ [\<lparr>longUrl = domainRest1 p, shortUrl = sUrl, active = True,
                                       queries = 0\<rparr>],
                   LONG_ACCESS := (LONG_ACCESS t)(domainRest1 p \<mapsto> length (heap t)),
                   SHORT_ACCESS := (SHORT_ACCESS t)(sUrl \<mapsto> length (heap t))\<rparr>))"
  using assms
  by (cases "lookup (realm t) (LONG_ACCESS t) (domainRest1 p)") (simp_all add: prj1_add_def Let_def)

lemma prj1_add_fn:
  assumes "prj1_getUrlParts u = Inr p" and "domain1 p \<noteq> SHORTENER_DOMAIN t"
    and "lookup (realm t) (LONG_ACCESS t) (domainRest1 p) = ObjectFunction"
  shows "prj1_add t u r =
           (ValueStr (scheme1 p @ ''undefined''),
            t\<lparr>realm := (realm t)\<lparr>Object_active := Some True\<rparr>\<rparr>)"
  using assms by (simp add: prj1_add_def)

lemma prj1_add_proto:
  assumes "prj1_getUrlParts u = Inr p" and "domain1 p \<noteq> SHORTENER_DOMAIN t"
    and "lookup (realm t) (LONG_ACCESS t) (domainRest1 p) = ObjectPrototype"
  shows "prj1_add t u r =
           (ValueStr (scheme1 p @ ''undefined''),
            t\<lparr>realm := (realm t)\<lparr>prototype_active := Some True\<rparr>\<rparr>)"
  using assms by (simp add: prj1_add_def)

lemma prj1_add_true:
  assumes "prj1_getUrlParts u = Inr p" and "domain1 p \<noteq> SHORTENER_DOMAIN t"
    and "lookup (realm t) (LONG_ACCESS t) (domainRest1 p) = Boolean True"
  shows "prj1_add t u r = (TypeError (cannotCreate ''active''), t)"
  using assms by (simp add: prj1_add_def)

lemma step1_same: "step1 t t"
  by (simp add: step1_def)

lemma step1_update:
  "longUrl x = longUrl (heap t ! a) \<Longrightarrow> shortUrl x = shortUrl (heap t ! a) \<Longrightarrow>
   step1 t (t\<lparr>heap := (heap t)[a := x]\<rparr>)"
  unfolding step1_def by blast

lemma step1_realm: "step1 t (t\<lparr>realm := g\<rparr>)"
  unfolding step1_def by blast

lemma step1_insert:
  "LONG_ACCESS t k = None \<Longrightarrow> k \<noteq> ''constructor'' \<Longrightarrow> k \<noteq> ''__proto__'' \<Longrightarrow> longUrl x = k \<Longrightarrow>
   step1 t (t\<lparr>heap := heap t @ [x], LONG_ACCESS := (LONG_ACCESS t)(k \<mapsto> length (heap t)),
              SHORT_ACCESS := m\<rparr>)"
  unfolding step1_def by blast

lemma prj1_add_step: "step1 t (snd (prj1_add t u r))"
proof (cases "prj1_getUrlParts u")
  case (Inl e)
  then show ?thesis by (simp add: prj1_add_def step1_same)
next
  case (Inr p)
  show ?thesis
  proof (cases "domain1 p = SHORTENER_DOMAIN t")
    case True
    with Inr show ?thesis by (simp add: prj1_add_def step1_same)
  next
    case False
    show ?thesis
    proof (cases rule: lookup_cases [of "LONG_ACCESS t" "domainRest1 p" "realm t"])
      case (own a)
      with Inr False show ?thesis
        by (simp add: prj1_add_own step1_update)
    next
      case fn
      with Inr False show ?thesis
        by (simp add: prj1_add_fn step1_realm)
    next
      case proto
      with Inr False show ?thesis
        by (simp add: prj1_add_proto step1_realm)
    next
      case true
      with Inr False show ?thesis
        by (simp add: prj1_add_true step1_same)
    next
      case falsy
      then have "\<not> truthy (lookup (realm t) (LONG_ACCESS t) (domainRest1 p))"
        by auto
      from prj1_add_falsy [OF Inr False this, of r] falsy(1,2,3) show ?thesis
        by (simp add: Let_def step1_insert)
    qed
  qed
qed

lemma prj1_query_step: "step1 t (snd (prj1_query t u))"
proof (cases "prj1_getUrlParts u")
  case (Inl e)
  then show ?thesis by (simp add: prj1_query_def step1_same)
next
  case (Inr p)
  show ?thesis
  proof (cases "lookup (realm t) (SHORT_ACCESS t) (domainRest1 p)")
    case (Boolean b)
    with Inr show ?thesis
      by (cases b) (simp_all add: prj1_query_def Let_def step1_same)
  qed (simp_all add: Inr prj1_query_def Let_def step1_same step1_update step1_realm)
qed

lemma prj1_count_state: "snd (prj1_count t u) = t"
proof (cases "prj1_getUrlParts u")
  case (Inl e)
  then show ?thesis by (simp add: prj1_count_def)
next
  case (Inr p)
  show ?thesis
  proof (cases "lookup (realm t) (LONG_ACCESS t) (domainRest1 p)")
    case (Boolean b)
    with Inr show ?thesis
      by (cases b) (simp_all add: prj1_count_def split: option.splits)
  qed (simp_all add: Inr prj1_count_def split: option.splits)
qed

lemma prj1_remove_step: "step1 t (snd (prj1_remove t u))"
proof (cases "prj1_getUrlParts u")
  case (Inl e)
  then show ?thesis by (simp add: prj1_remove_def step1_same)
next
  case (Inr p)
  show ?thesis
  proof (cases "lookup (realm t) (LONG_ACCESS t) (domainRest1 p)")
    case (Boolean b)
    with Inr show ?thesis
      by (cases b)
        (simp_all add: prj1_remove_def step1_same step1_update split: option.splits)
  qed (simp_all add: Inr prj1_remove_def step1_same step1_update step1_realm
        split: option.splits)
qed

lemma prj1_exec_step: "step1 t (snd (prj1_exec t c))"
  by (cases c) (simp_all add: prj1_add_step prj1_query_step prj1_count_state prj1_remove_step step1_same)

lemma wf1_update:
  assumes "wf1 t" and "longUrl x = longUrl (heap t ! a)"
  shows "wf1 (t\<lparr>heap := (heap t)[a := x]\<rparr>)"
  using assms by (simp add: wf1_def nth_update_field [where f = longUrl])

lemma wf1_realm: "wf1 t \<Longrightarrow> wf1 (t\<lparr>realm := g\<rparr>)"
  by (simp add: wf1_def)

lemma wf1_insert:
  assumes "wf1 t" and "LONG_ACCESS t k = None" and "longUrl x = k"
    and "k \<noteq> ''constructor''" and "k \<noteq> ''__proto__''"
  shows "wf1 (t\<lparr>heap := heap t @ [x], LONG_ACCESS := (LONG_ACCESS t)(k \<mapsto> length (heap t)),
                 SHORT_ACCESS := m\<rparr>)"
proof -
  have 1: "longUrl (heap t ! a) \<noteq> k" if "a < length (heap t)" for a
    using assms(1,2) that by (auto simp: wf1_def)
  have 2: "a < length (heap t) \<and> longUrl (heap t ! a) = k'" if "LONG_ACCESS t k' = Some a" for k' a
    using assms(1) that by (simp add: wf1_def)
  have 3: "LONG_ACCESS t (longUrl (heap t ! a)) = Some a" if "a < length (heap t)" for a
    using assms(1) that by (simp add: wf1_def)
  have 4: "LONG_ACCESS t ''constructor'' = None" "LONG_ACCESS t ''__proto__'' = None"
    using assms(1) by (simp_all add: wf1_def)
  show ?thesis
    unfolding wf1_def using assms(3,4,5) 4
    by (auto simp: nth_append less_Suc_eq 1 3 dest: 2)
qed

lemma stays_refl: "stays t t"
  by (simp add: stays_def)

lemma stays_trans: "stays t t' \<Longrightarrow> stays t' t'' \<Longrightarrow> stays t t''"
  unfolding stays_def by metis

lemma stays_update:
  "shortUrl x = shortUrl (heap t ! b) \<Longrightarrow> stays t (t\<lparr>heap := (heap t)[b := x]\<rparr>)"
  by (simp add: stays_def nth_update_field [where f = shortUrl])

lemma stays_realm: "stays t (t\<lparr>realm := g\<rparr>)"
  by (simp add: stays_def)

lemma stays_insert:
  assumes "wf1 t" and "LONG_ACCESS t k = None"
  shows "stays t (t\<lparr>heap := heap t @ [x], LONG_ACCESS := (LONG_ACCESS t)(k \<mapsto> length (heap t)),
                 SHORT_ACCESS := m\<rparr>)"
  using assms by (auto simp: stays_def wf1_def nth_append)

lemma step1_cases:
  assumes "step1 t t'"
  obtains (same) "t' = t"
  | (update) a x where "t' = t\<lparr>heap := (heap t)[a := x]\<rparr>" "longUrl x = longUrl (heap t ! a)"
      "shortUrl x = shortUrl (heap t ! a)"
  | (realm) g where "t' = t\<lparr>realm := g\<rparr>"
  | (insert) k x m where "LONG_ACCESS t k = None" "k \<noteq> ''constructor''" "k \<noteq> ''__proto__''"
      "longUrl x = k"
      "t' = t\<lparr>heap := heap t @ [x], LONG_ACCESS := (LONG_ACCESS t)(k \<mapsto> length (heap t)),
              SHORT_ACCESS := m\<rparr>"
  using assms unfolding step1_def by blast

lemma step1_wf1:
  assumes "step1 t t'" and "wf1 t"
  shows "wf1 t'"
  using assms(1)
proof (cases rule: step1_cases)
  case same
  with assms(2) show ?thesis by simp
next
  case (update a x)
  with assms(2) show ?thesis by (simp add: wf1_update)
next
  case (realm g)
  with assms(2) show ?thesis by (simp add: wf1_realm)
next
  case (insert k x m)
  with assms(2) show ?thesis by (simp add: wf1_insert)
qed

lemma step1_stays:
  assumes "step1 t t'" and "wf1 t"
  shows "stays t t'"
  using assms(1)
proof (cases rule: step1_cases)
  case same
  then show ?thesis by (simp add: stays_refl)
next
  case (update a x)
  then show ?thesis by (simp add: stays_update)
next
  case (realm g)
  then show ?thesis by (simp add: stays_realm)
next
  case (insert k x m)
  with assms(2) show ?thesis by (simp add: stays_insert)
qed

lemma prj1_exec_wf1: "wf1 t \<Longrightarrow> wf1 (snd (prj1_exec t c))"
  using prj1_exec_step by (rule step1_wf1)

lemma prj1_exec_stays: "wf1 t \<Longrightarrow> stays t (snd (prj1_exec t c))"
  using prj1_exec_step by (rule step1_stays)

lemma prj1_run_wf1: "wf1 t \<Longrightarrow> wf1 (prj1_run t cs)"
  by (induction cs arbitrary: t) (simp_all add: prj1_exec_wf1)

lemma prj1_run_stays: "wf1 t \<Longrightarrow> stays t (prj1_run t cs)"
proof (induction cs arbitrary: t)
  case Nil
  then show ?case by (simp add: stays_refl)
next
  case (Cons c cs)
  from Cons.prems have "stays t (snd (prj1_exec t c))"
    by (rule prj1_exec_stays)
  moreover from Cons.prems have "stays (snd (prj1_exec t c)) (prj1_run (snd (prj1_exec t c)) cs)"
    by (intro Cons.IH prj1_exec_wf1)
  ultimately show ?case
    by (auto intro: stays_trans)
qed

lemma wf1_one:
  assumes "wf1 t" and "LONG_ACCESS t k = Some a"
  shows "\<exists>!b. b < length (heap t) \<and> longUrl (heap t ! b) = k"
proof
  from assms show "a < length (heap t) \<and> longUrl (heap t ! a) = k"
    by (simp add: wf1_def)
next
  fix b
  assume "b < length (heap t) \<and> longUrl (heap t ! b) = k"
  with assms(1) have "LONG_ACCESS t k = Some b"
    by (auto simp: wf1_def)
  with assms(2) show "b = a" by simp
qed

lemma wf1_none:
  assumes "wf1 t" and "LONG_ACCESS t k = None" and "b < length (heap t)"
  shows "longUrl (heap t ! b) \<noteq> k"
  using assms by (auto simp: wf1_def)

lemma prj1_add_first:
  assumes "wf1 t" and "prj1_getUrlParts u = Inr p" and "domain1 p \<noteq> SHORTENER_DOMAIN t"
    and "LONG_ACCESS t (domainRest1 p) = None \<longrightarrow> \<not> truthy (inherited (realm t) (domainRest1 p))"
  shows "\<exists>a. fst (prj1_add t u r) =
               ValueStr (scheme1 p @ shortUrl (heap (snd (prj1_add t u r)) ! a)) \<and>
             LONG_ACCESS (snd (prj1_add t u r)) (domainRest1 p) = Some a \<and>
             active (heap (snd (prj1_add t u r)) ! a)"
proof (cases "LONG_ACCESS t (domainRest1 p)")
  case (Some a)
  with assms(1) have "a < length (heap t)"
    by (simp add: wf1_def)
  with prj1_add_own [OF assms(2,3) Some, of r] Some show ?thesis
    by simp
next
  case None
  with assms(4) have "\<not> truthy (lookup (realm t) (LONG_ACCESS t) (domainRest1 p))"
    by (simp add: lookup_None)
  from prj1_add_falsy [OF assms(2,3) this, of r] show ?thesis
    by (simp add: Let_def)
qed

lemma prj1_add_second:
  assumes "wf1 t1" and "prj1_getUrlParts u = Inr p" and "domain1 p \<noteq> SHORTENER_DOMAIN t1"
    and "LONG_ACCESS t1 (domainRest1 p) = Some a"
  shows "LONG_ACCESS (prj1_run t1 cs) (domainRest1 p) = Some a \<and>
         prj1_add (prj1_run t1 cs) u r =
           (ValueStr (scheme1 p @ shortUrl (heap t1 ! a)),
            (prj1_run t1 cs)\<lparr>heap := (heap (prj1_run t1 cs))
               [a := (heap (prj1_run t1 cs) ! a)\<lparr>active := True\<rparr>]\<rparr>)"
proof -
  from assms(1) have "stays t1 (prj1_run t1 cs)"
    by (rule prj1_run_stays)
  with assms(4) have s:
    "SHORTENER_DOMAIN (prj1_run t1 cs) = SHORTENER_DOMAIN t1"
    "LONG_ACCESS (prj1_run t1 cs) (domainRest1 p) = Some a"
    "shortUrl (heap (prj1_run t1 cs) ! a) = shortUrl (heap t1 ! a)"
    by (auto simp: stays_def)
  from s(1) assms(3) have "domain1 p \<noteq> SHORTENER_DOMAIN (prj1_run t1 cs)"
    by simp
  from prj1_add_own [OF assms(2) this s(2), of r] s(2,3) show ?thesis
    by simp
qed

lemma prj1_add_builtin:
  assumes "wf1 t" and "prj1_getUrlParts u = Inr p" and "domain1 p \<noteq> SHORTENER_DOMAIN t"
    and "domainRest1 p = ''constructor'' \<or> domainRest1 p = ''__proto__''"
  shows "fst (prj1_add t u r) = ValueStr (scheme1 p @ ''undefined'') \<and>
         heap (snd (prj1_add t u r)) = heap t \<and>
         LONG_ACCESS (snd (prj1_add t u r)) = LONG_ACCESS t \<and>
         SHORT_ACCESS (snd (prj1_add t u r)) = SHORT_ACCESS t"
proof -
  from assms(1) have n: "LONG_ACCESS t ''constructor'' = None" "LONG_ACCESS t ''__proto__'' = None"
    by (simp_all add: wf1_def)
  from assms(4) show ?thesis
  proof
    assume k: "domainRest1 p = ''constructor''"
    with n have "lookup (realm t) (LONG_ACCESS t) (domainRest1 p) = ObjectFunction"
      by (simp add: lookup_def inherited_def)
    from prj1_add_fn [OF assms(2,3) this, of r] show ?thesis
      by simp
  next
    assume k: "domainRest1 p = ''__proto__''"
    with n have "lookup (realm t) (LONG_ACCESS t) (domainRest1 p) = ObjectPrototype"
      by (simp add: lookup_def inherited_def)
    from prj1_add_proto [OF assms(2,3) this, of r] show ?thesis
      by simp
  qed
qed

lemma prj1_run_domain: "wf1 t \<Longrightarrow> SHORTENER_DOMAIN (prj1_run t cs) = SHORTENER_DOMAIN t"
  using prj1_run_stays [of t cs] by (simp add: stays_def)

lemma prj1_add_domain: "SHORTENER_DOMAIN (snd (prj1_add t u r)) = SHORTENER_DOMAIN t"
  using prj1_add_step [of t u r] by (auto simp: step1_def)

lemma wf1_distinct: "wf1 t \<Longrightarrow> distinct (map longUrl (heap t))"
  unfolding wf1_def distinct_conv_nth
  by (metis length_map nth_map option.inject)

lemma prj1_add_exec: "prj1_add t u r = prj1_exec t (Add1 u r)"
  by simp

section \<open>The keys of the in-memory engine\<close>

lemma toLowerCase_no_capital:
  "c \<in> set (toLowerCase s) \<Longrightarrow> \<not> (65 \<le> charCode c \<and> charCode c \<le> 90)"
proof -
  assume "c \<in> set (toLowerCase s)"
  then obtain d where "c = toLowerChar d"
    by (auto simp: toLowerCase_def)
  then have "charCode c =
      (if (65 \<le> charCode d \<and> charCode d \<le> 90) \<or>
          (192 \<le> charCode d \<and> charCode d \<le> 222 \<and> charCode d \<noteq> 215)
       then charCode d + 32 else charCode d)"
    by (simp only: charCode_toLowerChar)
  then show ?thesis
    by (simp split: if_splits)
qed

lemma prj1_getUrlParts_key:
  assumes "prj1_getUrlParts u = Inr p"
  obtains i where "indexOf u ''://'' = Some i"
    "domainRest1 p =
       (case indexOf (drop (i + 3) u) ''/'' of
          None \<Rightarrow> toLowerCase (drop (i + 3) u)
        | Some j \<Rightarrow> toLowerCase (take j (drop (i + 3) u)) @ drop (i + 3 + j) u)"
proof (cases "indexOf u ''://''")
  case None
  with assms show ?thesis by (simp add: prj1_getUrlParts_def)
next
  case (Some i)
  with assms have "domainRest1 p =
       (case indexOf (drop (i + 3) u) ''/'' of
          None \<Rightarrow> toLowerCase (drop (i + 3) u)
        | Some j \<Rightarrow> toLowerCase (take j (drop (i + 3) u)) @ drop (i + 3 + j) u)"
    by (cases "indexOf (drop (i + 3) u) ''/''")
      (auto simp add: prj1_getUrlParts_def Let_def split: if_splits)
  with Some that show ?thesis by blast
qed

lemma slash_in_rest:
  assumes "indexOf s ''/'' = Some j"
  shows "CHR ''/'' \<in> set (drop j s)"
proof -
  from indexOf_Some_decomp [OF assms] have "s = take j s @ ''/'' @ drop (j + 1) s"
    by simp
  then have "drop j s = drop j (take j s @ ''/'' @ drop (j + 1) s)"
    by simp
  also have "\<dots> = ''/'' @ drop (j + 1) s"
    using indexOf_Some_le [OF assms] by simp
  finally show ?thesis by simp
qed

lemma domainRest1_shape:
  assumes "prj1_getUrlParts u = Inr p"
  shows "CHR ''/'' \<in> set (domainRest1 p) \<or>
         (\<forall>c \<in> set (domainRest1 p). \<not> (65 \<le> charCode c \<and> charCode c \<le> 90))"
proof -
  from assms obtain i where i: "indexOf u ''://'' = Some i"
    "domainRest1 p =
       (case indexOf (drop (i + 3) u) ''/'' of
          None \<Rightarrow> toLowerCase (drop (i + 3) u)
        | Some j \<Rightarrow> toLowerCase (take j (drop (i + 3) u)) @ drop (i + 3 + j) u)"
    by (rule prj1_getUrlParts_key)
  show ?thesis
  proof (cases "indexOf (drop (i + 3) u) ''/''")
    case None
    with i(2) have "domainRest1 p = toLowerCase (drop (i + 3) u)"
      by simp
    then show ?thesis
      using toLowerCase_no_capital by simp
  next
    case (Some j)
    from slash_in_rest [OF Some] have "CHR ''/'' \<in> set (drop (i + 3 + j) u)"
      by (simp add: add.commute)
    with i(2) Some show ?thesis
      by simp
  qed
qed

text \<open>The names \<open>Object.prototype\<close> defines, \<open>constructor\<close> and \<open>__proto__\<close> apart.\<close>

lemma key_not_capitalised:
  assumes "prj1_getUrlParts u = Inr p"
  shows "domainRest1 p \<notin> {''toString'', ''toLocaleString'', ''valueOf'', ''hasOwnProperty'',
           ''isPrototypeOf'', ''propertyIsEnumerable'', ''__defineGetter__'', ''__defineSetter__'',
           ''__lookupGetter__'', ''__lookupSetter__''}"
proof -
  have c: "charCode CHR ''S'' = 83" "charCode CHR ''O'' = 79" "charCode CHR ''P'' = 80"
    "charCode CHR ''I'' = 73" "charCode CHR ''G'' = 71"
    by (simp_all add: charCode_def)
  from domainRest1_shape [OF assms] show ?thesis
  proof
    assume "CHR ''/'' \<in> set (domainRest1 p)"
    then show ?thesis by auto
  next
    assume a: "\<forall>c \<in> set (domainRest1 p). \<not> (65 \<le> charCode c \<and> charCode c \<le> 90)"
    have "domainRest1 p \<noteq> ''toString''" "domainRest1 p \<noteq> ''toLocaleString''"
      "domainRest1 p \<noteq> ''__defineSetter__''" "domainRest1 p \<noteq> ''__lookupSetter__''"
      using a [rule_format, of "CHR ''S''"] c by auto
    moreover have "domainRest1 p \<noteq> ''valueOf''" "domainRest1 p \<noteq> ''hasOwnProperty''"
      "domainRest1 p \<noteq> ''isPrototypeOf''"
      using a [rule_format, of "CHR ''O''"] c by auto
    moreover have "domainRest1 p \<noteq> ''propertyIsEnumerable''"
      using a [rule_format, of "CHR ''I''"] c by auto
    moreover have "domainRest1 p \<noteq> ''__defineGetter__''" "domainRest1 p \<noteq> ''__lookupGetter__''"
      using a [rule_format, of "CHR ''G''"] c by auto
    ultimately show ?thesis by simp
  qed
qed

section \<open>Adding a URL again\<close>

lemma add_succeeds:
  assumes "validateScheme (getUrlParts u) httpRegex = Inr p" and "domain p \<noteq> SHORTENER_BASE s"
  shows "\<exists>v. add s u r = (ValueStr v, snd (add s u r))"
proof (cases "queryDb (col s) (baseRest p)")
  case None
  from add_new [OF assms None, of r] show ?thesis by simp
next
  case (Some d)
  from add_found [OF assms Some, of r] show ?thesis by simp
qed

lemma add_stores_longUrl:
  assumes "validateScheme (getUrlParts u) httpRegex = Inr p" and "domain p \<noteq> SHORTENER_BASE s"
    and "baseRest p \<notin> set (map shortUrl (col s))"
  shows "baseRest p \<in> set (map longUrl (col (snd (add s u r))))"
proof (cases "queryDb (col s) (baseRest p)")
  case None
  from add_new [OF assms(1,2) None, of r] show ?thesis by simp
next
  case (Some d)
  from queryDb_mem [OF Some] have d: "d \<in> set (col s)" "longUrl d = baseRest p \<or> shortUrl d = baseRest p"
    by simp_all
  have "shortUrl d \<noteq> baseRest p"
  proof
    assume "shortUrl d = baseRest p"
    with d(1) image_eqI [of "baseRest p" shortUrl d "set (col s)"]
    have "baseRest p \<in> set (map shortUrl (col s))"
      by simp
    with assms(3) show False by simp
  qed
  with d have "d \<in> set (col s)" "longUrl d = baseRest p"
    by simp_all
  with image_eqI [of "baseRest p" longUrl d "set (col s)"]
  have "baseRest p \<in> set (map longUrl (col s))"
    by simp
  moreover have "map longUrl (updateOne d (\<lambda>d. d\<lparr>active := True\<rparr>) (col s)) = map longUrl (col s)"
    by (rule updateOne_longUrl) simp
  ultimately show ?thesis
    using add_found [OF assms(1,2) Some, of r] by simp
qed

lemma prefix_keys_longUrl:
  assumes "prefix (map keys c) (map keys c')"
  shows "set (map longUrl c) \<subseteq> set (map longUrl c')"
proof -
  have l: "map longUrl x = map fst (map keys x)" for x
    by (simp add: keys_def)
  from assms have "prefix (map fst (map keys c)) (map fst (map keys c'))"
    by (rule map_mono_prefix)
  then show ?thesis
    unfolding l by (rule set_mono_prefix)
qed

lemma distinct_one:
  assumes "distinct (map f xs)" and "k \<in> set (map f xs)"
  shows "\<exists>!i. i < length xs \<and> f (xs ! i) = k"
proof -
  from assms(2) obtain i where i: "i < length xs" "f (xs ! i) = k"
    by (auto simp: in_set_conv_nth)
  show ?thesis
  proof
    from i show "i < length xs \<and> f (xs ! i) = k" by simp
  next
    fix j
    assume "j < length xs \<and> f (xs ! j) = k"
    with i have "j < length (map f xs)" "i < length (map f xs)" "map f xs ! j = map f xs ! i"
      by simp_all
    with nth_eq_iff_index_eq [OF assms(1)] show "j = i"
      by blast
  qed
qed

lemma add_one_document:
  assumes "validateScheme (getUrlParts u) httpRegex = Inr p" and "domain p \<noteq> SHORTENER_BASE s"
    and "baseRest p \<notin> set (map shortUrl (col s))" and "distinct (map longUrl (col s))"
  shows "\<exists>!i. i < length (col (run (snd (add s u r)) cs)) \<and>
              longUrl (col (run (snd (add s u r)) cs) ! i) = baseRest p"
proof (rule distinct_one)
  from run_distinct [OF assms(4), of "Add u r # cs"]
  show "distinct (map longUrl (col (run (snd (add s u r)) cs)))"
    by simp
  from add_stores_longUrl [OF assms(1,2,3), of r]
    prefix_keys_longUrl [OF run_keys, of "snd (add s u r)" cs]
  show "baseRest p \<in> set (map longUrl (col (run (snd (add s u r)) cs)))"
    by (rule set_mp [rotated])
qed

text \<open>
  C1. Store-backed engine: for every URL \<open>u\<close> that parses (with http or https) and whose
  domain is not the shortener's base, \<open>add u\<close> returns a value, and a document is then
  found for the URL, active, whose short URL makes the value. After any operations (so the
  association may be active or deactivated by then), in the state \<open>s2\<close>, \<open>add u\<close> returns
  the same value again, stores no new document (the collection keeps its length: the only
  change is that the document found for \<open>u\<close> has \<open>active\<close> set), and that document is
  active afterwards. No two documents share a long URL, if that holds at the start (as of
  the empty collection); and exactly one document has the key of \<open>u\<close> as its long URL, when
  that key is not the short URL of a document at the start (\<open>add\<close> looks the key up among
  the short URLs too, and takes a document found there for the association of \<open>u\<close>).
  Here \<open>s1\<close> is the state after the first \<open>add\<close>, \<open>s2\<close> the state after the operations
  \<open>cs\<close> that follow, \<open>s3\<close> the state after the second \<open>add\<close>; \<open>t1\<close>, \<open>t2\<close>, \<open>t3\<close> are
  the same for the in-memory engine.

  In-memory engine, run from a well-formed state (as the one the constructor builds): the
  same holds when the key of \<open>u\<close> is an own property of \<open>LONG_ACCESS\<close> or inherits a false
  value there. It does not hold for the keys \<open>constructor\<close> and \<open>__proto__\<close>: \<open>add\<close> finds
  the function \<open>Object\<close> or the object \<open>Object.prototype\<close> in \<open>LONG_ACCESS\<close>, takes it for
  the association, and returns the scheme followed by \<open>undefined\<close>; nothing is stored, so at
  no later state is there an association for the URL. And once \<open>Object.prototype.active\<close>
  is \<open>true\<close>, \<open>add\<close> raises a \<open>TypeError\<close> for the key \<open>active\<close>.
\<close>

theorem add_again_same_short_url:
  assumes "s1 = snd (add s u r1)" and "s2 = run s1 cs" and "s3 = snd (add s2 u r2)"
    and "t1 = snd (prj1_add t u r1)" and "t2 = prj1_run t1 cs1" and "t3 = snd (prj1_add t2 u r2)"
  shows
   "(validateScheme (getUrlParts u) httpRegex = Inr p \<and> domain p \<noteq> SHORTENER_BASE s \<longrightarrow>
       (\<exists>d. queryDb (col s1) (baseRest p) = Some d \<and> active d \<and>
            fst (add s u r1) = ValueStr (scheme p @ ''://'' @ shortUrl d)) \<and>
       fst (add s2 u r2) = fst (add s u r1) \<and>
       length (col s3) = length (col s2) \<and>
       (\<exists>d. queryDb (col s2) (baseRest p) = Some d \<and>
            col s3 = updateOne d (\<lambda>d. d\<lparr>active := True\<rparr>) (col s2) \<and>
            queryDb (col s3) (baseRest p) = Some (d\<lparr>active := True\<rparr>)) \<and>
       (distinct (map longUrl (col s)) \<and> baseRest p \<notin> set (map shortUrl (col s)) \<longrightarrow>
          (\<exists>!i. i < length (col s2) \<and> longUrl (col s2 ! i) = baseRest p))) \<and>
    (distinct (map longUrl (col s)) \<longrightarrow> distinct (map longUrl (col (run s cs)))) \<and>
    (wf1 t \<and> prj1_getUrlParts u = Inr q \<and> domain1 q \<noteq> SHORTENER_DOMAIN t \<and>
     (LONG_ACCESS t (domainRest1 q) = None \<longrightarrow>
        \<not> truthy (inherited (realm t) (domainRest1 q))) \<longrightarrow>
       (\<exists>a. LONG_ACCESS t1 (domainRest1 q) = Some a \<and> active (heap t1 ! a) \<and>
            fst (prj1_add t u r1) = ValueStr (scheme1 q @ shortUrl (heap t1 ! a)) \<and>
            LONG_ACCESS t2 (domainRest1 q) = Some a \<and>
            t3 = t2\<lparr>heap := (heap t2)[a := (heap t2 ! a)\<lparr>active := True\<rparr>]\<rparr>) \<and>
       fst (prj1_add t2 u r2) = fst (prj1_add t u r1) \<and>
       (\<exists>!b. b < length (heap t2) \<and> longUrl (heap t2 ! b) = domainRest1 q)) \<and>
    (wf1 t \<longrightarrow> wf1 (prj1_run t cs1) \<and> distinct (map longUrl (heap (prj1_run t cs1)))) \<and>
    (wf1 t \<and> prj1_getUrlParts u = Inr q \<and> domain1 q \<noteq> SHORTENER_DOMAIN t \<and>
     (domainRest1 q = ''constructor'' \<or> domainRest1 q = ''__proto__'') \<longrightarrow>
       fst (prj1_add t u r1) = ValueStr (scheme1 q @ ''undefined'') \<and>
       heap t1 = heap t \<and> LONG_ACCESS t1 = LONG_ACCESS t \<and> SHORT_ACCESS t1 = SHORT_ACCESS t \<and>
       fst (prj1_add t2 u r2) = ValueStr (scheme1 q @ ''undefined'') \<and>
       (\<forall>b < length (heap t2). longUrl (heap t2 ! b) \<noteq> domainRest1 q)) \<and>
    (prj1_getUrlParts u = Inr q \<and> domain1 q \<noteq> SHORTENER_DOMAIN t \<and>
     LONG_ACCESS t (domainRest1 q) = None \<and>
     inherited (realm t) (domainRest1 q) = Boolean True \<longrightarrow>
       prj1_add t u r1 = (TypeError (cannotCreate ''active''), t))"
proof -
  have A: "(\<exists>d. queryDb (col s1) (baseRest p) = Some d \<and> active d \<and>
            fst (add s u r1) = ValueStr (scheme p @ ''://'' @ shortUrl d)) \<and>
       fst (add s2 u r2) = fst (add s u r1) \<and>
       length (col s3) = length (col s2) \<and>
       (\<exists>d. queryDb (col s2) (baseRest p) = Some d \<and>
            col s3 = updateOne d (\<lambda>d. d\<lparr>active := True\<rparr>) (col s2) \<and>
            queryDb (col s3) (baseRest p) = Some (d\<lparr>active := True\<rparr>)) \<and>
       (distinct (map longUrl (col s)) \<and> baseRest p \<notin> set (map shortUrl (col s)) \<longrightarrow>
          (\<exists>!i. i < length (col s2) \<and> longUrl (col s2 ! i) = baseRest p))"
    if p: "validateScheme (getUrlParts u) httpRegex = Inr p" "domain p \<noteq> SHORTENER_BASE s"
  proof -
    from add_succeeds [OF p, of r1] obtain v where v: "add s u r1 = (ValueStr v, s1)"
      unfolding assms(1) by blast
    from add_ValueStr [OF v] p(1) obtain d where
      d: "queryDb (col s1) (baseRest p) = Some d" "active d" "v = scheme p @ ''://'' @ shortUrl d"
      by auto
    from add_again [OF v, of cs r2] p(1) obtain d' where
      d': "queryDb (col s2) (baseRest p) = Some d'" and
      r: "add s2 u r2 = (ValueStr v, s2\<lparr>col := updateOne d' (\<lambda>d. d\<lparr>active := True\<rparr>) (col s2)\<rparr>)"
      unfolding assms(2) by auto
    have q: "queryDb (updateOne d' (\<lambda>d. d\<lparr>active := True\<rparr>) (col s2)) (baseRest p) =
        Some (d'\<lparr>active := True\<rparr>)"
      by (rule queryDb_updateOne [OF d']) (simp add: keys_def)
    have 1: "\<exists>d. queryDb (col s1) (baseRest p) = Some d \<and> active d \<and>
        fst (add s u r1) = ValueStr (scheme p @ ''://'' @ shortUrl d)"
      using d v by simp
    have 2: "fst (add s2 u r2) = fst (add s u r1)"
      using r v by simp
    have 3: "length (col s3) = length (col s2)"
      using r by (simp add: assms(3))
    have 4: "\<exists>d. queryDb (col s2) (baseRest p) = Some d \<and>
        col s3 = updateOne d (\<lambda>d. d\<lparr>active := True\<rparr>) (col s2) \<and>
        queryDb (col s3) (baseRest p) = Some (d\<lparr>active := True\<rparr>)"
      using d' r q by (simp add: assms(3))
    have 5: "\<exists>!i. i < length (col s2) \<and> longUrl (col s2 ! i) = baseRest p"
      if "distinct (map longUrl (col s)) \<and> baseRest p \<notin> set (map shortUrl (col s))"
      unfolding assms(1,2) using add_one_document [OF p, of r1 cs] that by blast
    from 1 2 3 4 5 show ?thesis
      by (intro conjI impI)
  qed
  have B: "distinct (map longUrl (col (run s cs)))" if "distinct (map longUrl (col s))"
    using that by (rule run_distinct)
  have C: "(\<exists>a. LONG_ACCESS t1 (domainRest1 q) = Some a \<and> active (heap t1 ! a) \<and>
            fst (prj1_add t u r1) = ValueStr (scheme1 q @ shortUrl (heap t1 ! a)) \<and>
            LONG_ACCESS t2 (domainRest1 q) = Some a \<and>
            t3 = t2\<lparr>heap := (heap t2)[a := (heap t2 ! a)\<lparr>active := True\<rparr>]\<rparr>) \<and>
       fst (prj1_add t2 u r2) = fst (prj1_add t u r1) \<and>
       (\<exists>!b. b < length (heap t2) \<and> longUrl (heap t2 ! b) = domainRest1 q)"
    if h: "wf1 t" "prj1_getUrlParts u = Inr q" "domain1 q \<noteq> SHORTENER_DOMAIN t"
      "LONG_ACCESS t (domainRest1 q) = None \<longrightarrow> \<not> truthy (inherited (realm t) (domainRest1 q))"
  proof -
    from prj1_add_first [OF h, of r1] obtain a where
      a: "fst (prj1_add t u r1) = ValueStr (scheme1 q @ shortUrl (heap t1 ! a))"
        "LONG_ACCESS t1 (domainRest1 q) = Some a" "active (heap t1 ! a)"
      unfolding assms(4) by blast
    have w1: "wf1 t1"
      unfolding assms(4) prj1_add_exec using h(1) by (rule prj1_exec_wf1)
    have d1: "domain1 q \<noteq> SHORTENER_DOMAIN t1"
      unfolding assms(4) using h(3) by (simp add: prj1_add_domain)
    from prj1_add_second [OF w1 h(2) d1 a(2), of cs1 r2] have
      s: "LONG_ACCESS t2 (domainRest1 q) = Some a"
        "prj1_add t2 u r2 =
           (ValueStr (scheme1 q @ shortUrl (heap t1 ! a)),
            t2\<lparr>heap := (heap t2)[a := (heap t2 ! a)\<lparr>active := True\<rparr>]\<rparr>)"
      unfolding assms(5) by simp_all
    have w2: "wf1 t2"
      unfolding assms(5) using w1 by (rule prj1_run_wf1)
    have 1: "\<exists>a. LONG_ACCESS t1 (domainRest1 q) = Some a \<and> active (heap t1 ! a) \<and>
            fst (prj1_add t u r1) = ValueStr (scheme1 q @ shortUrl (heap t1 ! a)) \<and>
            LONG_ACCESS t2 (domainRest1 q) = Some a \<and>
            t3 = t2\<lparr>heap := (heap t2)[a := (heap t2 ! a)\<lparr>active := True\<rparr>]\<rparr>"
      using a s by (simp add: assms(6))
    have 2: "fst (prj1_add t2 u r2) = fst (prj1_add t u r1)"
      using a(1) s(2) by simp
    have 3: "\<exists>!b. b < length (heap t2) \<and> longUrl (heap t2 ! b) = domainRest1 q"
      using w2 s(1) by (rule wf1_one)
    from 1 2 3 show ?thesis
      by (intro conjI)
  qed
  have D: "wf1 (prj1_run t cs1) \<and> distinct (map longUrl (heap (prj1_run t cs1)))" if "wf1 t"
    using that by (simp add: prj1_run_wf1 wf1_distinct)
  have E: "fst (prj1_add t u r1) = ValueStr (scheme1 q @ ''undefined'') \<and>
       heap t1 = heap t \<and> LONG_ACCESS t1 = LONG_ACCESS t \<and> SHORT_ACCESS t1 = SHORT_ACCESS t \<and>
       fst (prj1_add t2 u r2) = ValueStr (scheme1 q @ ''undefined'') \<and>
       (\<forall>b < length (heap t2). longUrl (heap t2 ! b) \<noteq> domainRest1 q)"
    if h: "wf1 t" "prj1_getUrlParts u = Inr q" "domain1 q \<noteq> SHORTENER_DOMAIN t"
      "domainRest1 q = ''constructor'' \<or> domainRest1 q = ''__proto__''"
  proof -
    have w1: "wf1 t1"
      unfolding assms(4) prj1_add_exec using h(1) by (rule prj1_exec_wf1)
    then have w2: "wf1 t2"
      unfolding assms(5) by (rule prj1_run_wf1)
    have "SHORTENER_DOMAIN t2 = SHORTENER_DOMAIN t"
      unfolding assms(5) using w1 by (simp add: prj1_run_domain assms(4) prj1_add_domain)
    with h(3) have d2: "domain1 q \<noteq> SHORTENER_DOMAIN t2"
      by simp
    from w2 h(4) have "LONG_ACCESS t2 (domainRest1 q) = None"
      by (auto simp: wf1_def)
    with w2 have 3: "\<forall>b < length (heap t2). longUrl (heap t2 ! b) \<noteq> domainRest1 q"
      using wf1_none by blast
    from prj1_add_builtin [OF h, of r1] prj1_add_builtin [OF w2 h(2) d2 h(4), of r2] 3
    show ?thesis
      by (simp add: assms(4))
  qed
  have F: "prj1_add t u r1 = (TypeError (cannotCreate ''active''), t)"
    if h: "prj1_getUrlParts u = Inr q" "domain1 q \<noteq> SHORTENER_DOMAIN t"
      "LONG_ACCESS t (domainRest1 q) = None" "inherited (realm t) (domainRest1 q) = Boolean True"
  proof -
    from h(3,4) have "lookup (realm t) (LONG_ACCESS t) (domainRest1 q) = Boolean True"
      by (simp add: lookup_None)
    with h(1,2) show ?thesis
      by (rule prj1_add_true)
  qed
  have A': "validateScheme (getUrlParts u) httpRegex = Inr p \<and> domain p \<noteq> SHORTENER_BASE s \<longrightarrow>
       (\<exists>d. queryDb (col s1) (baseRest p) = Some d \<and> active d \<and>
            fst (add s u r1) = ValueStr (scheme p @ ''://'' @ shortUrl d)) \<and>
       fst (add s2 u r2) = fst (add s u r1) \<and>
       length (col s3) = length (col s2) \<and>
       (\<exists>d. queryDb (col s2) (baseRest p) = Some d \<and>
            col s3 = updateOne d (\<lambda>d. d\<lparr>active := True\<rparr>) (col s2) \<and>
            queryDb (col s3) (baseRest p) = Some (d\<lparr>active := True\<rparr>)) \<and>
       (distinct (map longUrl (col s)) \<and> baseRest p \<notin> set (map shortUrl (col s)) \<longrightarrow>
          (\<exists>!i. i < length (col s2) \<and> longUrl (col s2 ! i) = baseRest p))"
    by (intro impI, elim conjE, rule A)
  have B': "distinct (map longUrl (col s)) \<longrightarrow> distinct (map longUrl (col (run s cs)))"
    by (intro impI, rule B)
  have C': "wf1 t \<and> prj1_getUrlParts u = Inr q \<and> domain1 q \<noteq> SHORTENER_DOMAIN t \<and>
     (LONG_ACCESS t (domainRest1 q) = None \<longrightarrow>
        \<not> truthy (inherited (realm t) (domainRest1 q))) \<longrightarrow>
       (\<exists>a. LONG_ACCESS t1 (domainRest1 q) = Some a \<and> active (heap t1 ! a) \<and>
            fst (prj1_add t u r1) = ValueStr (scheme1 q @ shortUrl (heap t1 ! a)) \<and>
            LONG_ACCESS t2 (domainRest1 q) = Some a \<and>
            t3 = t2\<lparr>heap := (heap t2)[a := (heap t2 ! a)\<lparr>active := True\<rparr>]\<rparr>) \<and>
       fst (prj1_add t2 u r2) = fst (prj1_add t u r1) \<and>
       (\<exists>!b. b < length (heap t2) \<and> longUrl (heap t2 ! b) = domainRest1 q)"
    by (intro impI, elim conjE, rule C)
  have D': "wf1 t \<longrightarrow> wf1 (prj1_run t cs1) \<and> distinct (map longUrl (heap (prj1_run t cs1)))"
    by (intro impI, rule D)
  have E': "wf1 t \<and> prj1_getUrlParts u = Inr q \<and> domain1 q \<noteq> SHORTENER_DOMAIN t \<and>
     (domainRest1 q = ''constructor'' \<or> domainRest1 q = ''__proto__'') \<longrightarrow>
       fst (prj1_add t u r1) = ValueStr (scheme1 q @ ''undefined'') \<and>
       heap t1 = heap t \<and> LONG_ACCESS t1 = LONG_ACCESS t \<and> SHORT_ACCESS t1 = SHORT_ACCESS t \<and>
       fst (prj1_add t2 u r2) = ValueStr (scheme1 q @ ''undefined'') \<and>
       (\<forall>b < length (heap t2). longUrl (heap t2 ! b) \<noteq> domainRest1 q)"
    by (intro impI, elim conjE, rule E)
  have F': "prj1_getUrlParts u = Inr q \<and> domain1 q \<noteq> SHORTENER_DOMAIN t \<and>
     LONG_ACCESS t (domainRest1 q) = None \<and>
     inherited (realm t) (domainRest1 q) = Boolean True \<longrightarrow>
       prj1_add t u r1 = (TypeError (cannotCreate ''active''), t)"
    by (intro impI, elim conjE, rule F)
  from A' B' C' D' E' F' show ?thesis
    by (intro conjI)
qed

text \<open>
  The theorem at \<open>http://a.com\<close>, added, deactivated and added again, in both engines; at
  \<open>http://constructor\<close> in a new in-memory engine for \<open>short.ly\<close>, where \<open>add\<close> returns
  \<open>http://undefined\<close> and leaves the heap empty; and at \<open>http://active\<close> after
  \<open>http://__proto__\<close> has been added.
\<close>

theorem add_again_same_short_url_witness:
  "fst (add offStore ''http://a.com'' 9) = ValueStr ''http://short.ly/7'' \<and>
   length (col (snd (add offStore ''http://a.com'' 9))) = 1 \<and>
   (\<exists>!i. i < length (col offStore) \<and> longUrl (col offStore ! i) = ''a.com'') \<and>
   fst (prj1_add (prj1_run (snd (prj1_add (prj1_new ''short.ly'') ''http://a.com'' 7))
          [Remove1 ''http://a.com'']) ''http://a.com'' 9) = ValueStr ''http://short.ly/7'' \<and>
   fst (prj1_add (prj1_new ''short.ly'') ''http://constructor'' 7) = ValueStr ''http://undefined'' \<and>
   heap (snd (prj1_add (prj1_new ''short.ly'') ''http://constructor'' 7)) = [] \<and>
   prj1_add (snd (prj1_add (prj1_new ''short.ly'') ''http://__proto__'' 7)) ''http://active'' 8 =
     (TypeError (cannotCreate ''active''), snd (prj1_add (prj1_new ''short.ly'') ''http://__proto__'' 7))"
proof -
  let ?p = "\<lparr>scheme = ''http'', base = ''a.com'', domain = ''a.com'', rest = None,
             baseRest = ''a.com'', url = ''http://a.com''\<rparr>"
  let ?q = "\<lparr>scheme1 = ''http://'', domain1 = ''a.com'', rest1 = None, domainRest1 = ''a.com'',
             url1 = ''http://a.com''\<rparr>"
  let ?c = "\<lparr>scheme1 = ''http://'', domain1 = ''constructor'', rest1 = None,
             domainRest1 = ''constructor'', url1 = ''http://constructor''\<rparr>"
  let ?a = "\<lparr>scheme1 = ''http://'', domain1 = ''active'', rest1 = None,
             domainRest1 = ''active'', url1 = ''http://active''\<rparr>"
  let ?t = "snd (prj1_add (prj1_new ''short.ly'') ''http://__proto__'' 7)"
  have p: "validateScheme (getUrlParts ''http://a.com'') httpRegex = Inr ?p \<and>
      domain ?p \<noteq> SHORTENER_BASE emptyStore"
    by code_simp
  have k: "fst (add emptyStore ''http://a.com'' 7) = ValueStr ''http://short.ly/7''"
    "run (snd (add emptyStore ''http://a.com'' 7)) [Deactivate ''http://a.com''] = offStore"
    by code_simp+
  have e: "distinct (map longUrl (col emptyStore)) \<and>
      baseRest ?p \<notin> set (map shortUrl (col emptyStore))"
    by (simp add: emptyStore_def)
  have l: "length (col offStore) = 1"
    by (simp add: offStore_def)
  have q: "wf1 (prj1_new ''short.ly'') \<and> prj1_getUrlParts ''http://a.com'' = Inr ?q \<and>
      domain1 ?q \<noteq> SHORTENER_DOMAIN (prj1_new ''short.ly'') \<and>
      (LONG_ACCESS (prj1_new ''short.ly'') (domainRest1 ?q) = None \<longrightarrow>
         \<not> truthy (inherited (realm (prj1_new ''short.ly'')) (domainRest1 ?q)))"
  proof (intro conjI impI)
    show "wf1 (prj1_new ''short.ly'')"
      by (simp add: wf1_def prj1_new_def)
    show "prj1_getUrlParts ''http://a.com'' = Inr ?q"
      by code_simp
    show "domain1 ?q \<noteq> SHORTENER_DOMAIN (prj1_new ''short.ly'')"
      by code_simp
    show "\<not> truthy (inherited (realm (prj1_new ''short.ly'')) (domainRest1 ?q))"
      by code_simp
  qed
  have k1: "fst (prj1_add (prj1_new ''short.ly'') ''http://a.com'' 7) = ValueStr ''http://short.ly/7''"
    by code_simp
  have c: "wf1 (prj1_new ''short.ly'') \<and> prj1_getUrlParts ''http://constructor'' = Inr ?c \<and>
      domain1 ?c \<noteq> SHORTENER_DOMAIN (prj1_new ''short.ly'') \<and>
      (domainRest1 ?c = ''constructor'' \<or> domainRest1 ?c = ''__proto__'')"
  proof (intro conjI)
    show "wf1 (prj1_new ''short.ly'')"
      by (simp add: wf1_def prj1_new_def)
    show "prj1_getUrlParts ''http://constructor'' = Inr ?c"
      by code_simp
    show "domain1 ?c \<noteq> SHORTENER_DOMAIN (prj1_new ''short.ly'')"
      by code_simp
    show "domainRest1 ?c = ''constructor'' \<or> domainRest1 ?c = ''__proto__''"
      by simp
  qed
  have a: "prj1_getUrlParts ''http://active'' = Inr ?a \<and>
      domain1 ?a \<noteq> SHORTENER_DOMAIN ?t \<and>
      LONG_ACCESS ?t (domainRest1 ?a) = None \<and>
      inherited (realm ?t) (domainRest1 ?a) = Boolean True"
    by code_simp
  note T1 = add_again_same_short_url [where s = emptyStore and u = "''http://a.com''"
      and ?r1.0 = 7 and cs = "[Deactivate ''http://a.com'']" and ?r2.0 = 9
      and t = "prj1_new ''short.ly''" and ?cs1.0 = "[Remove1 ''http://a.com'']"
      and p = ?p and q = ?q, OF refl refl refl refl refl refl]
  note T2 = add_again_same_short_url [where u = "''http://constructor''" and ?r1.0 = 7
      and t = "prj1_new ''short.ly''" and q = ?c, OF refl refl refl refl refl refl]
  note T3 = add_again_same_short_url [where u = "''http://active''" and ?r1.0 = 8
      and t = ?t and q = ?a, OF refl refl refl refl refl refl]
  note A = mp [OF T1 [THEN conjunct1] p]
  from A [THEN conjunct2, THEN conjunct1]
  have 1: "fst (add offStore ''http://a.com'' 9) = ValueStr ''http://short.ly/7''"
    unfolding k .
  from A [THEN conjunct2, THEN conjunct2, THEN conjunct1]
  have 2: "length (col (snd (add offStore ''http://a.com'' 9))) = 1"
    unfolding k l .
  from mp [OF A [THEN conjunct2, THEN conjunct2, THEN conjunct2, THEN conjunct2] e]
  have 3: "\<exists>!i. i < length (col offStore) \<and> longUrl (col offStore ! i) = ''a.com''"
    unfolding k by simp
  note C = mp [OF T1 [THEN conjunct2, THEN conjunct2, THEN conjunct1] q]
  from C [THEN conjunct2, THEN conjunct1]
  have 4: "fst (prj1_add (prj1_run (snd (prj1_add (prj1_new ''short.ly'') ''http://a.com'' 7))
          [Remove1 ''http://a.com'']) ''http://a.com'' 9) = ValueStr ''http://short.ly/7''"
    unfolding k1 .
  note E = mp [OF T2 [THEN conjunct2, THEN conjunct2, THEN conjunct2, THEN conjunct2,
      THEN conjunct1] c]
  from E [THEN conjunct1]
  have 5: "fst (prj1_add (prj1_new ''short.ly'') ''http://constructor'' 7) =
      ValueStr ''http://undefined''"
    by simp
  from E [THEN conjunct2, THEN conjunct1]
  have 6: "heap (snd (prj1_add (prj1_new ''short.ly'') ''http://constructor'' 7)) = []"
    by (simp add: prj1_new_def)
  note 7 = mp [OF T3 [THEN conjunct2, THEN conjunct2, THEN conjunct2, THEN conjunct2,
      THEN conjunct2] a]
  from 1 2 3 4 5 6 7 show ?thesis
    by (intro conjI)
qed

section \<open>When parsing fails\<close>

lemma sep_conds:
  assumes "indexOf u ''://'' = Some i"
  shows "(i + 3 = 3 \<or> length u = i + 3 \<or> charAt u (i + 3) = Some CHR ''/'') \<longleftrightarrow>
         (i = 0 \<or> drop (i + 3) u = [] \<or> hd (drop (i + 3) u) = CHR ''/'')"
proof -
  have le: "i + 3 \<le> length u"
    using indexOf_Some_le [OF assms] by simp
  then show ?thesis
    by (auto simp: charAt_def hd_drop_conv_nth)
qed

lemma prj1_getUrlParts_fails:
  "(\<exists>e. prj1_getUrlParts u = Inl e) \<longleftrightarrow>
     \<not> sublist ''://'' u \<or>
     (\<exists>i. indexOf u ''://'' = Some i \<and>
          (i = 0 \<or> drop (i + 3) u = [] \<or> hd (drop (i + 3) u) = CHR ''/''))"
proof (cases "indexOf u ''://''")
  case None
  then show ?thesis
    by (simp add: prj1_getUrlParts_def indexOf_None_iff [symmetric])
next
  case (Some i)
  then have "sublist ''://'' u"
    using indexOf_None_iff [of u "''://''"] by simp
  with Some sep_conds [OF Some] show ?thesis
    by (auto simp: prj1_getUrlParts_def Let_def split: option.splits)
qed

lemma prj1_getUrlParts_code: "prj1_getUrlParts u = Inl e \<Longrightarrow> code e = ''URL_SYNTAX''"
  by (auto simp: prj1_getUrlParts_def Let_def prj1_setErrMsg_def split: option.splits if_splits)

lemma parse_fails:
  "(\<exists>e. validateScheme (getUrlParts u) regex = Inl e) \<longleftrightarrow>
     \<not> sublist ''://'' u \<or>
     (\<exists>i. indexOf u ''://'' = Some i \<and>
          (i = 0 \<or> drop (i + 3) u = [] \<or> hd (drop (i + 3) u) = CHR ''/'' \<or>
           \<not> regex (toLowerCase (take i u)) \<or>
           \<not> validateBase (toLowerCase (takeWhile (\<lambda>c. c \<noteq> CHR ''/'') (drop (i + 3) u)))))"
proof (cases "indexOf u ''://''")
  case None
  then show ?thesis
    by (simp add: getUrlParts_eq validateScheme_def indexOf_None_iff [symmetric])
next
  case (Some i)
  then have "sublist ''://'' u"
    using indexOf_None_iff [of u "''://''"] by simp
  with Some show ?thesis
    by (auto simp: getUrlParts_eq validateScheme_def)
qed

lemma op_url_syntax:
  "(\<exists>e. fst (add s u r) = ErrorObj e \<and> code e = ''URL_SYNTAX'') \<longleftrightarrow>
     (\<exists>e. validateScheme (getUrlParts u) httpRegex = Inl e)"
  "(\<exists>e. fst (query s u) = ErrorObj e \<and> code e = ''URL_SYNTAX'') \<longleftrightarrow>
     (\<exists>e. validateScheme (getUrlParts u) httpRegex = Inl e)"
  "(\<exists>e. fst (count s u) = ErrorObj e \<and> code e = ''URL_SYNTAX'') \<longleftrightarrow>
     (\<exists>e. validateScheme (getUrlParts u) httpRegex = Inl e)"
  "(\<exists>e. fst (deactivate s u) = ErrorObj e \<and> code e = ''URL_SYNTAX'') \<longleftrightarrow>
     (\<exists>e. validateScheme (getUrlParts u) httpRegex = Inl e)"
  by (auto simp: add_def query_def count_def deactivate_def Let_def setErrMsg_def
      split: sum.splits option.splits dest: parse_Inl_code)

lemma prj1_setErrMsg_code:
  "code (prj1_setErrMsg a b c ''DOMAIN_EQ'') \<noteq> ''URL_SYNTAX''"
  "code (prj1_setErrMsg a b c ''DOMAIN_NE'') \<noteq> ''URL_SYNTAX''"
  "code (prj1_setErrMsg a b c ''NOT_FOUND'') \<noteq> ''URL_SYNTAX''"
  by (simp_all add: prj1_setErrMsg_def)

lemma prj1_add_url_syntax:
  "(\<exists>e. fst (prj1_add t u r) = ErrorObj e \<and> code e = ''URL_SYNTAX'') \<longleftrightarrow>
     (\<exists>e. prj1_getUrlParts u = Inl e)"
proof (cases "prj1_getUrlParts u")
  case (Inl e)
  then show ?thesis
    by (simp add: prj1_add_def prj1_getUrlParts_code)
next
  case (Inr p)
  show ?thesis
  proof (cases "lookup (realm t) (LONG_ACCESS t) (domainRest1 p)")
    case (Boolean b)
    with Inr show ?thesis
      by (cases b) (simp_all add: prj1_add_def Let_def prj1_setErrMsg_code)
  qed (simp_all add: Inr prj1_add_def Let_def prj1_setErrMsg_code)
qed

lemma prj1_query_url_syntax:
  "(\<exists>e. fst (prj1_query t u) = ErrorObj e \<and> code e = ''URL_SYNTAX'') \<longleftrightarrow>
     (\<exists>e. prj1_getUrlParts u = Inl e)"
proof (cases "prj1_getUrlParts u")
  case (Inl e)
  then show ?thesis
    by (simp add: prj1_query_def prj1_getUrlParts_code)
next
  case (Inr p)
  show ?thesis
  proof (cases "lookup (realm t) (SHORT_ACCESS t) (domainRest1 p)")
    case (Boolean b)
    with Inr show ?thesis
      by (cases b) (simp_all add: prj1_query_def Let_def prj1_setErrMsg_code)
  qed (simp_all add: Inr prj1_query_def Let_def prj1_setErrMsg_code)
qed

lemma prj1_count_url_syntax:
  "(\<exists>e. fst (prj1_count t u) = ErrorObj e \<and> code e = ''URL_SYNTAX'') \<longleftrightarrow>
     (\<exists>e. prj1_getUrlParts u = Inl e)"
proof (cases "prj1_getUrlParts u")
  case (Inl e)
  then show ?thesis
    by (simp add: prj1_count_def prj1_getUrlParts_code)
next
  case (Inr p)
  show ?thesis
  proof (cases "lookup (realm t) (LONG_ACCESS t) (domainRest1 p)")
    case (Boolean b)
    with Inr show ?thesis
      by (cases b) (simp_all add: prj1_count_def prj1_setErrMsg_code split: option.splits)
  qed (simp_all add: Inr prj1_count_def prj1_setErrMsg_code split: option.splits)
qed

lemma prj1_remove_url_syntax:
  "(\<exists>e. fst (prj1_remove t u) = ErrorObj e \<and> code e = ''URL_SYNTAX'') \<longleftrightarrow>
     (\<exists>e. prj1_getUrlParts u = Inl e)"
proof (cases "prj1_getUrlParts u")
  case (Inl e)
  then show ?thesis
    by (simp add: prj1_remove_def prj1_getUrlParts_code)
next
  case (Inr p)
  show ?thesis
  proof (cases "lookup (realm t) (LONG_ACCESS t) (domainRest1 p)")
    case (Boolean b)
    with Inr show ?thesis
      by (cases b) (simp_all add: prj1_remove_def prj1_setErrMsg_code split: option.splits)
  qed (simp_all add: Inr prj1_remove_def prj1_setErrMsg_code split: option.splits)
qed

lemmas prj1_op_url_syntax =
  prj1_add_url_syntax prj1_query_url_syntax prj1_count_url_syntax prj1_remove_url_syntax

text \<open>
  C6 (as amended). In the store-backed engine, parsing a URL against a set of allowed schemes
  (\<open>getUrlParts\<close> followed by \<open>validateScheme\<close>) fails exactly when the string has no
  \<open>://\<close>, or, taking the first \<open>://\<close>: nothing stands before it, nothing follows it, a
  slash follows it, the lower-cased text before it is not an allowed scheme, or the
  lower-cased text after it up to the first slash fails \<open>validateBase\<close>. Every such failure
  has the code \<open>URL_SYNTAX\<close>, and \<open>add\<close>, \<open>query\<close>, \<open>count\<close> and \<open>deactivate\<close> return a
  \<open>URL_SYNTAX\<close> error exactly when parsing with the schemes http and https fails. In the
  in-memory engine, parsing fails only in the first four cases (no scheme is tested, no
  domain is validated), and its four operations return \<open>URL_SYNTAX\<close> exactly then.
\<close>

theorem url_syntax_errors:
  "((\<exists>e. validateScheme (getUrlParts u) regex = Inl e) \<longleftrightarrow>
      \<not> sublist ''://'' u \<or>
      (\<exists>i. indexOf u ''://'' = Some i \<and>
           (i = 0 \<or> drop (i + 3) u = [] \<or> hd (drop (i + 3) u) = CHR ''/'' \<or>
            \<not> regex (toLowerCase (take i u)) \<or>
            \<not> validateBase (toLowerCase (takeWhile (\<lambda>c. c \<noteq> CHR ''/'') (drop (i + 3) u)))))) \<and>
   (validateScheme (getUrlParts u) regex = Inl e \<longrightarrow> code e = ''URL_SYNTAX'') \<and>
   ((\<exists>e. fst (add s u r) = ErrorObj e \<and> code e = ''URL_SYNTAX'') \<longleftrightarrow>
      (\<exists>e. validateScheme (getUrlParts u) httpRegex = Inl e)) \<and>
   ((\<exists>e. fst (query s u) = ErrorObj e \<and> code e = ''URL_SYNTAX'') \<longleftrightarrow>
      (\<exists>e. validateScheme (getUrlParts u) httpRegex = Inl e)) \<and>
   ((\<exists>e. fst (count s u) = ErrorObj e \<and> code e = ''URL_SYNTAX'') \<longleftrightarrow>
      (\<exists>e. validateScheme (getUrlParts u) httpRegex = Inl e)) \<and>
   ((\<exists>e. fst (deactivate s u) = ErrorObj e \<and> code e = ''URL_SYNTAX'') \<longleftrightarrow>
      (\<exists>e. validateScheme (getUrlParts u) httpRegex = Inl e)) \<and>
   ((\<exists>e. prj1_getUrlParts u = Inl e) \<longleftrightarrow>
      \<not> sublist ''://'' u \<or>
      (\<exists>i. indexOf u ''://'' = Some i \<and>
           (i = 0 \<or> drop (i + 3) u = [] \<or> hd (drop (i + 3) u) = CHR ''/''))) \<and>
   (prj1_getUrlParts u = Inl e1 \<longrightarrow> code e1 = ''URL_SYNTAX'') \<and>
   ((\<exists>e. fst (prj1_add t u r) = ErrorObj e \<and> code e = ''URL_SYNTAX'') \<longleftrightarrow>
      (\<exists>e. prj1_getUrlParts u = Inl e)) \<and>
   ((\<exists>e. fst (prj1_query t u) = ErrorObj e \<and> code e = ''URL_SYNTAX'') \<longleftrightarrow>
      (\<exists>e. prj1_getUrlParts u = Inl e)) \<and>
   ((\<exists>e. fst (prj1_count t u) = ErrorObj e \<and> code e = ''URL_SYNTAX'') \<longleftrightarrow>
      (\<exists>e. prj1_getUrlParts u = Inl e)) \<and>
   ((\<exists>e. fst (prj1_remove t u) = ErrorObj e \<and> code e = ''URL_SYNTAX'') \<longleftrightarrow>
      (\<exists>e. prj1_getUrlParts u = Inl e))"
  using parse_fails [of u regex] parse_Inl_code [of u regex e] op_url_syntax [of s u]
    prj1_getUrlParts_fails [of u] prj1_getUrlParts_code [of u e1] prj1_op_url_syntax [of t u]
  by (intro conjI impI) blast+

theorem url_syntax_errors_witness:
  "(\<exists>e. validateScheme (getUrlParts ''ftp://a.com'') httpRegex = Inl e) \<and>
   (\<exists>e. fst (count emptyStore ''ftp://a.com'') = ErrorObj e \<and> code e = ''URL_SYNTAX'') \<and>
   (\<exists>e. fst (deactivate emptyStore ''ftp://a.com'') = ErrorObj e \<and> code e = ''URL_SYNTAX'') \<and>
   (\<exists>e. fst (prj1_count (prj1_new ''short.ly'') ''http:///a.com'') = ErrorObj e \<and>
        code e = ''URL_SYNTAX'')"
proof -
  note a = url_syntax_errors [where u = "''ftp://a.com''" and regex = httpRegex and s = emptyStore]
  note b = url_syntax_errors [where u = "''http:///a.com''" and t = "prj1_new ''short.ly''"]
  have i: "indexOf ''ftp://a.com'' ''://'' = Some 3" "indexOf ''http:///a.com'' ''://'' = Some 4"
    by simp_all
  have f: "\<not> httpRegex (toLowerCase (take 3 ''ftp://a.com''))"
    by code_simp
  have h: "hd (drop (4 + 3) ''http:///a.com'') = CHR ''/''"
    by simp
  from i(1) f have "\<exists>i. indexOf ''ftp://a.com'' ''://'' = Some i \<and>
      (i = 0 \<or> drop (i + 3) ''ftp://a.com'' = [] \<or> hd (drop (i + 3) ''ftp://a.com'') = CHR ''/'' \<or>
       \<not> httpRegex (toLowerCase (take i ''ftp://a.com'')) \<or>
       \<not> validateBase (toLowerCase (takeWhile (\<lambda>c. c \<noteq> CHR ''/'') (drop (i + 3) ''ftp://a.com''))))"
    by blast
  with a [THEN conjunct1]
  have 1: "\<exists>e. validateScheme (getUrlParts ''ftp://a.com'') httpRegex = Inl e"
    by blast
  from 1 a [THEN conjunct2, THEN conjunct2, THEN conjunct2, THEN conjunct2, THEN conjunct1]
  have 2: "\<exists>e. fst (count emptyStore ''ftp://a.com'') = ErrorObj e \<and> code e = ''URL_SYNTAX''"
    by blast
  from 1 a [THEN conjunct2, THEN conjunct2, THEN conjunct2, THEN conjunct2, THEN conjunct2,
      THEN conjunct1]
  have 3: "\<exists>e. fst (deactivate emptyStore ''ftp://a.com'') = ErrorObj e \<and> code e = ''URL_SYNTAX''"
    by blast
  from i(2) h have "\<exists>i. indexOf ''http:///a.com'' ''://'' = Some i \<and>
      (i = 0 \<or> drop (i + 3) ''http:///a.com'' = [] \<or> hd (drop (i + 3) ''http:///a.com'') = CHR ''/'')"
    by blast
  with b [THEN conjunct2, THEN conjunct2, THEN conjunct2, THEN conjunct2, THEN conjunct2,
      THEN conjunct2, THEN conjunct1]
  have "\<exists>e. prj1_getUrlParts ''http:///a.com'' = Inl e"
    by blast
  with b [THEN conjunct2, THEN conjunct2, THEN conjunct2, THEN conjunct2, THEN conjunct2,
      THEN conjunct2, THEN conjunct2, THEN conjunct2, THEN conjunct2, THEN conjunct2, THEN conjunct1]
  have 4: "\<exists>e. fst (prj1_count (prj1_new ''short.ly'') ''http:///a.com'') = ErrorObj e \<and>
        code e = ''URL_SYNTAX''"
    by blast
  from 1 2 3 4 show ?thesis by blast
qed

text \<open>
  C6 (as stated) fails on the in-memory engine: \<open>ftp\<close> is neither http nor https, and
  \<open>count\<close> of an \<open>ftp\<close> URL fails with \<open>NOT_FOUND\<close>, not with \<open>URL_SYNTAX\<close>.
\<close>

theorem url_syntax_counterexample:
  "\<not> httpRegex ''ftp'' \<and>
   fst (prj1_count (prj1_new ''short.ly'') ''ftp://a.com'') =
     ErrorObj \<lparr>code = ''NOT_FOUND'', message = ''NOT_FOUND: ftp://a.com not found''\<rparr>"
  by code_simp

section \<open>Short URLs parse back\<close>

lemma split_js_chars:
  "c \<in> set s \<Longrightarrow> c = sep \<or> (\<exists>p \<in> set (split_js sep s). c \<in> set p)"
proof (induction s)
  case Nil
  then show ?case by simp
next
  case (Cons x xs)
  then show ?case
    by (cases "split_js sep xs") (auto split: if_splits)
qed

lemma split_js_nonempty: "split_js sep s \<noteq> []"
  by (induction s) (auto split: list.splits)

lemma validateBase_host:
  assumes "validateBase b" and "CHR '':'' \<notin> set b"
  shows "b \<noteq> []" and "\<forall>c \<in> set b. baseChar c"
proof -
  from assms have ok: "list_all partOk (split_js CHR ''.'' b)"
    by (simp add: validateBase_alt takeWhile_absent)
  show "b \<noteq> []"
  proof
    assume "b = []"
    with ok show False by (simp add: partOk_iff)
  qed
  show "\<forall>c \<in> set b. baseChar c"
  proof
    fix c assume "c \<in> set b"
    from split_js_chars [OF this, of "CHR ''.''"] ok show "baseChar c"
      by (auto simp: list_all_iff partOk_iff baseChar_def)
  qed
qed

lemma baseChar_not_slash: "\<not> baseChar CHR ''/''"
  by (simp add: baseChar_def charCode_def)

lemma validateBase_no_slash:
  "validateBase b \<Longrightarrow> CHR '':'' \<notin> set b \<Longrightarrow> CHR ''/'' \<notin> set b"
  using validateBase_host(2) baseChar_not_slash by blast

lemma digit36_lower: "d < 36 \<Longrightarrow> toLowerChar (digit36 d) = digit36 d"
proof -
  assume d: "d < 36"
  have all: "\<forall>c \<in> set ''0123456789abcdefghijklmnopqrstuvwxyz''. toLowerChar c = c"
    by (simp add: toLowerChar_def charCode_def)
  from d have "digit36 d \<in> set ''0123456789abcdefghijklmnopqrstuvwxyz''"
    unfolding digit36_def by (intro nth_mem) simp
  with all show ?thesis by blast
qed

lemma toString36_lower: "toLowerCase (toString36 n) = toString36 n"
proof (induction n rule: toString36.induct)
  case (1 n)
  show ?case
  proof (cases "n < 36")
    case True
    then show ?thesis
      by (simp add: toString36.simps [of n] toLowerCase_def digit36_lower)
  next
    case False
    with 1 show ?thesis
      by (simp add: toString36.simps [of n] toLowerCase_def digit36_lower)
  qed
qed

lemma toLowerCase_append: "toLowerCase (a @ b) = toLowerCase a @ toLowerCase b"
  by (simp add: toLowerCase_def)

lemma toLowerCase_Cons: "toLowerCase (c # s) = toLowerChar c # toLowerCase s"
  by (simp add: toLowerCase_def)

lemma toLowerChar_sep: "toLowerChar CHR '':'' = CHR '':''" "toLowerChar CHR ''/'' = CHR ''/''"
  by (simp_all add: toLowerChar_def charCode_def)

lemma takeWhile_toLowerCase:
  "takeWhile (\<lambda>c. c \<noteq> CHR ''/'') (toLowerCase r) = toLowerCase (takeWhile (\<lambda>c. c \<noteq> CHR ''/'') r)"
  by (induction r) (auto simp: toLowerCase_def toLowerChar_slash)

lemma takeWhile_upto:
  "c \<notin> set b \<Longrightarrow> takeWhile (\<lambda>x. x \<noteq> c) (b @ c # t) = b"
  by (induction b) auto

lemma dropWhile_upto:
  "c \<notin> set b \<Longrightarrow> dropWhile (\<lambda>x. x \<noteq> c) (b @ c # t) = c # t"
  by (induction b) auto

lemma indexOf_sep_decomp:
  assumes "indexOf u ''://'' = Some i"
  shows "u = take i u @ ''://'' @ drop (i + 3) u"
proof -
  have "i + length ''://'' = i + 3"
    by simp
  with indexOf_Some_decomp [OF assms] show ?thesis
    by (simp only:)
qed

lemma getUrlParts_lower:
  assumes "getUrlParts u = Inr p"
  shows "toLowerCase u = scheme p @ ''://'' @ baseRest p"
proof -
  from getUrlParts_Inr [OF assms] obtain i where
    i: "indexOf u ''://'' = Some i" "scheme p = toLowerCase (take i u)"
    "baseRest p = toLowerCase (drop (i + 3) u)"
    by blast
  from indexOf_sep_decomp [OF i(1)] have "toLowerCase u = toLowerCase (take i u @ ''://'' @ drop (i + 3) u)"
    by simp
  with i show ?thesis
    by (simp add: toLowerCase_append toLowerCase_Cons toLowerChar_sep del: append_take_drop_id)
qed

lemma own_key_own_domain:
  assumes "getUrlParts u = Inr p" and "baseRest p = b @ ''/'' @ t"
    and "CHR ''/'' \<notin> set b" and "CHR '':'' \<notin> set b"
  shows "domain p = b"
proof -
  from getUrlParts_Inr [OF assms(1)] obtain i where
    i: "baseRest p = toLowerCase (drop (i + 3) u)"
    "base p = toLowerCase (takeWhile (\<lambda>c. c \<noteq> CHR ''/'') (drop (i + 3) u))"
    "domain p = takeWhile (\<lambda>c. c \<noteq> CHR '':'') (base p)"
    by blast
  from i(1,2) have "base p = takeWhile (\<lambda>c. c \<noteq> CHR ''/'') (baseRest p)"
    by (simp add: takeWhile_toLowerCase)
  also from assms(2,3) have "\<dots> = b"
    by (simp add: takeWhile_upto)
  finally show ?thesis
    using i(3) assms(4) by (simp add: takeWhile_absent)
qed

lemma indexOf_sep_http:
  "indexOf (''http'' @ ''://'' @ r) ''://'' = Some 4"
  "indexOf (''https'' @ ''://'' @ r) ''://'' = Some 5"
  by simp_all

lemma parse_short:
  assumes "sch = ''http'' \<or> sch = ''https''" and "validateBase b" and "toLowerCase b = b"
    and "CHR '':'' \<notin> set b" and "toLowerCase t = t"
  shows "validateScheme (getUrlParts (sch @ ''://'' @ b @ ''/'' @ t)) httpRegex =
     Inr \<lparr>scheme = sch, base = b, domain = b, rest = Some (''/'' @ t),
          baseRest = b @ ''/'' @ t, url = sch @ ''://'' @ b @ ''/'' @ t\<rparr>"
proof -
  from assms(2,4) have ne: "b \<noteq> []" and ns: "CHR ''/'' \<notin> set b"
    by (rule validateBase_host(1), rule validateBase_no_slash)
  then have hd: "hd b \<noteq> CHR ''/''"
    by (cases b) auto
  have tw: "takeWhile (\<lambda>c. c \<noteq> CHR ''/'') (b @ ''/'' @ t) = b"
    "dropWhile (\<lambda>c. c \<noteq> CHR ''/'') (b @ ''/'' @ t) = ''/'' @ t"
    using ns by (simp_all add: takeWhile_upto dropWhile_upto)
  have lw: "toLowerCase (b @ ''/'' @ t) = b @ ''/'' @ t"
    using assms(3,5) by (simp add: toLowerCase_append toLowerCase_Cons toLowerChar_sep)
  have sc: "toLowerCase ''http'' = ''http''" "toLowerCase ''https'' = ''https''"
    by (simp_all add: toLowerCase_def toLowerChar_def charCode_def)
  from assms(1) show ?thesis
  proof
    assume s: "sch = ''http''"
    have "getUrlParts (''http'' @ ''://'' @ b @ ''/'' @ t) =
      Inr \<lparr>scheme = ''http'', base = b, domain = b, rest = Some (''/'' @ t),
          baseRest = b @ ''/'' @ t, url = ''http'' @ ''://'' @ b @ ''/'' @ t\<rparr>"
      unfolding getUrlParts_eq indexOf_sep_http option.case
      using ne hd tw lw sc assms(2,3,4) by (simp add: takeWhile_absent)
    with s show ?thesis
      by (simp add: validateScheme_def httpRegex_def)
  next
    assume s: "sch = ''https''"
    have "getUrlParts (''https'' @ ''://'' @ b @ ''/'' @ t) =
      Inr \<lparr>scheme = ''https'', base = b, domain = b, rest = Some (''/'' @ t),
          baseRest = b @ ''/'' @ t, url = ''https'' @ ''://'' @ b @ ''/'' @ t\<rparr>"
      unfolding getUrlParts_eq indexOf_sep_http option.case
      using ne hd tw lw sc assms(2,3,4) by (simp add: takeWhile_absent)
    with s show ?thesis
      by (simp add: validateScheme_def httpRegex_def)
  qed
qed

lemma queryDb_own_short:
  assumes "d \<in> set c" and "distinct (map shortUrl c)" and "\<forall>x \<in> set c. longUrl x \<noteq> shortUrl d"
  shows "queryDb c (shortUrl d) = Some d"
  using assms unfolding queryDb_def
  by (induction c) (auto simp: rev_image_eqI)

section \<open>From a long URL to its short URL and back\<close>

lemma storeOk_short:
  assumes "storeOk s" and "d \<in> set (col s)"
  shows "\<exists>t. shortUrl d = SHORTENER_BASE s @ ''/'' @ t \<and> toLowerCase t = t"
proof -
  from assms have "prefix (SHORTENER_BASE s @ ''/'') (shortUrl d)" and
    l: "toLowerCase (shortUrl d) = shortUrl d"
    by (auto simp: storeOk_def)
  then obtain t where t: "shortUrl d = (SHORTENER_BASE s @ ''/'') @ t"
    by (auto simp: prefix_def)
  with l have "toLowerCase (SHORTENER_BASE s @ ''/'') @ toLowerCase t = (SHORTENER_BASE s @ ''/'') @ t"
    by (simp only: toLowerCase_append)
  then have "toLowerCase t = t"
    by (simp add: toLowerCase_def)
  with t show ?thesis by simp
qed

lemma storeOk_keys:
  assumes "storeOk s" and "map keys c = map keys (col s)"
  shows "storeOk (s\<lparr>col := c\<rparr>)"
proof -
  have "map longUrl c = map (fst \<circ> keys) c" "map shortUrl c = map (snd \<circ> keys) c"
    by (simp_all add: keys_def comp_def)
  then have "map longUrl c = map fst (map keys c)" "map shortUrl c = map snd (map keys c)"
    by simp_all
  moreover have "map longUrl (col s) = map fst (map keys (col s))"
    "map shortUrl (col s) = map snd (map keys (col s))"
    by (simp_all add: keys_def comp_def)
  ultimately have "map longUrl c = map longUrl (col s)" "map shortUrl c = map shortUrl (col s)"
    using assms(2) by simp_all
  with assms(1) show ?thesis
    by (simp add: storeOk_def)
qed

text \<open>
  C2 (as amended). Let the shortener's base be a valid host in lower case with no port, and
  let no token collide: the collection is as \<open>storeOk\<close> says and the short URL made from
  the random number \<open>rnd\<close> is not a key of it. Then for every URL \<open>L\<close> that parses and whose
  domain is not the base, \<open>add L\<close> succeeds with a value \<open>S\<close>, and \<open>query S\<close> right after it
  returns \<open>L\<close> in lower case (the scheme, the host and the path of \<open>L\<close> are all stored
  lower-cased). The collection after \<open>add\<close> is again as \<open>storeOk\<close> says.
\<close>

theorem round_trip:
  assumes b: "validateBase (SHORTENER_BASE s)" "toLowerCase (SHORTENER_BASE s) = SHORTENER_BASE s"
      "CHR '':'' \<notin> set (SHORTENER_BASE s)"
    and ok: "storeOk s"
    and fresh: "queryDb (col s) (SHORTENER_BASE s @ ''/'' @ toString36 rnd) = None"
    and p: "validateScheme (getUrlParts L) httpRegex = Inr p" "domain p \<noteq> SHORTENER_BASE s"
  shows "\<exists>S s1 s2. add s L rnd = (ValueStr S, s1) \<and> storeOk s1 \<and>
           query s1 S = (ValueStr (toLowerCase L), s2)"
proof -
  let ?B = "SHORTENER_BASE s"
  from p(1) have gp: "getUrlParts L = Inr p" and sch: "scheme p = ''http'' \<or> scheme p = ''https''"
    by (simp_all add: parse_Inr httpRegex_def)
  from b(1,3) have ns: "CHR ''/'' \<notin> set ?B"
    by (rule validateBase_no_slash)
  have low: "toLowerCase L = scheme p @ ''://'' @ baseRest p"
    by (rule getUrlParts_lower [OF gp])
  have notshort: "baseRest p \<noteq> ?B @ ''/'' @ t" for t
    using own_key_own_domain [OF gp _ ns b(3)] p(2) by blast
  show ?thesis
  proof (cases "queryDb (col s) (baseRest p)")
    case None
    define x where "x = \<lparr>longUrl = baseRest p, shortUrl = ?B @ ''/'' @ toString36 rnd,
      active = True, queries = 0\<rparr>"
    define s1 where "s1 = s\<lparr>col := col s @ [x]\<rparr>"
    have a: "add s L rnd = (ValueStr (scheme p @ ''://'' @ ?B @ ''/'' @ toString36 rnd), s1)"
      using add_new [OF p None] by (simp add: s1_def x_def)
    have ps: "validateScheme (getUrlParts (scheme p @ ''://'' @ ?B @ ''/'' @ toString36 rnd)) httpRegex =
        Inr \<lparr>scheme = scheme p, base = ?B, domain = ?B, rest = Some (''/'' @ toString36 rnd),
          baseRest = ?B @ ''/'' @ toString36 rnd,
          url = scheme p @ ''://'' @ ?B @ ''/'' @ toString36 rnd\<rparr>"
      by (rule parse_short [OF sch b toString36_lower])
    have q: "queryDb (col s1) (?B @ ''/'' @ toString36 rnd) = Some x"
      using fresh by (simp add: s1_def queryDb_append x_def)
    have "query s1 (scheme p @ ''://'' @ ?B @ ''/'' @ toString36 rnd) =
        (ValueStr (scheme p @ ''://'' @ baseRest p),
         s1\<lparr>col := updateOne x (\<lambda>d. d\<lparr>queries := queries x + 1\<rparr>) (col s1)\<rparr>)"
      unfolding query_def ps using q by (simp add: s1_def x_def)
    moreover have "storeOk s1"
    proof -
      from None fresh have
        "\<forall>d \<in> set (col s). longUrl d \<noteq> baseRest p \<and> shortUrl d \<noteq> baseRest p"
        "\<forall>d \<in> set (col s). longUrl d \<noteq> ?B @ ''/'' @ toString36 rnd \<and>
           shortUrl d \<noteq> ?B @ ''/'' @ toString36 rnd"
        by (simp_all add: queryDb_None)
      moreover have "toLowerCase (?B @ ''/'' @ toString36 rnd) = ?B @ ''/'' @ toString36 rnd"
        using b(2) by (simp add: toLowerCase_append toLowerCase_Cons toLowerChar_sep toString36_lower)
      ultimately show ?thesis
        using ok notshort [of "toString36 rnd"]
        by (auto simp: storeOk_def s1_def x_def)
    qed
    ultimately show ?thesis
      using a low by auto
  next
    case (Some d)
    define s1 where "s1 = s\<lparr>col := updateOne d (\<lambda>d. d\<lparr>active := True\<rparr>) (col s)\<rparr>"
    have a: "add s L rnd = (ValueStr (scheme p @ ''://'' @ shortUrl d), s1)"
      using add_found [OF p Some] by (simp add: s1_def)
    from queryDb_mem [OF Some] have din: "d \<in> set (col s)" and
      dk: "longUrl d = baseRest p \<or> shortUrl d = baseRest p"
      by simp_all
    from storeOk_short [OF ok din] obtain t where
      t: "shortUrl d = ?B @ ''/'' @ t" "toLowerCase t = t"
      by blast
    with dk notshort [of t] have lk: "longUrl d = baseRest p"
      by auto
    have ps: "validateScheme (getUrlParts (scheme p @ ''://'' @ ?B @ ''/'' @ t)) httpRegex =
        Inr \<lparr>scheme = scheme p, base = ?B, domain = ?B, rest = Some (''/'' @ t),
          baseRest = ?B @ ''/'' @ t, url = scheme p @ ''://'' @ ?B @ ''/'' @ t\<rparr>"
      by (rule parse_short [OF sch b t(2)])
    from ok din have "\<forall>x \<in> set (col s). longUrl x \<noteq> shortUrl d"
      by (auto simp: storeOk_def)
    with ok din have "queryDb (col s) (shortUrl d) = Some d"
      by (intro queryDb_own_short) (simp_all add: storeOk_def)
    then have q: "queryDb (col s1) (?B @ ''/'' @ t) = Some (d\<lparr>active := True\<rparr>)"
      unfolding s1_def t(1) [symmetric]
      using queryDb_updateOne [of "col s" "shortUrl d" d "\<lambda>d. d\<lparr>active := True\<rparr>"]
      by (simp add: keys_def)
    have "query s1 (scheme p @ ''://'' @ shortUrl d) =
        (ValueStr (scheme p @ ''://'' @ baseRest p),
         s1\<lparr>col := updateOne (d\<lparr>active := True\<rparr>)
            (\<lambda>x. x\<lparr>queries := queries (d\<lparr>active := True\<rparr>) + 1\<rparr>) (col s1)\<rparr>)"
      unfolding query_def t(1) ps using q lk by (simp add: s1_def)
    moreover have "storeOk s1"
      unfolding s1_def
      by (rule storeOk_keys [OF ok]) (simp add: updateOne_keys keys_def)
    ultimately show ?thesis
      using a low by auto
  qed
qed

theorem round_trip_witness:
  "\<exists>S s1 s2. add emptyStore ''http://A.com/P'' 7 = (ValueStr S, s1) \<and> storeOk s1 \<and>
     query s1 S = (ValueStr ''http://a.com/p'', s2)"
proof -
  have b: "validateBase (SHORTENER_BASE emptyStore)"
    "toLowerCase (SHORTENER_BASE emptyStore) = SHORTENER_BASE emptyStore"
    by code_simp+
  have c: "CHR '':'' \<notin> set (SHORTENER_BASE emptyStore)"
    by (simp add: emptyStore_def)
  have ok: "storeOk emptyStore"
    by (simp add: storeOk_def emptyStore_def)
  have fresh: "queryDb (col emptyStore) (SHORTENER_BASE emptyStore @ ''/'' @ toString36 7) = None"
    by (simp add: queryDb_def emptyStore_def)
  have p: "validateScheme (getUrlParts ''http://A.com/P'') httpRegex =
      Inr \<lparr>scheme = ''http'', base = ''a.com'', domain = ''a.com'', rest = Some ''/P'',
           baseRest = ''a.com/p'', url = ''http://a.com/p''\<rparr>"
    by code_simp
  have d: "domain \<lparr>scheme = ''http'', base = ''a.com'', domain = ''a.com'', rest = Some ''/P'',
           baseRest = ''a.com/p'', url = ''http://a.com/p''\<rparr> \<noteq> SHORTENER_BASE emptyStore"
    by (simp add: emptyStore_def)
  have l: "toLowerCase ''http://A.com/P'' = ''http://a.com/p''"
    by code_simp
  from round_trip [OF b c ok fresh p d] show ?thesis
    unfolding l .
qed

text \<open>
  C2 (as stated) fails for a URL with a capital letter: \<open>query\<close> returns it in lower case,
  not as it was given.
\<close>

theorem round_trip_counterexample:
  "fst (add emptyStore ''http://A.com/P'' 7) = ValueStr ''http://short.ly/7'' \<and>
   fst (query (snd (add emptyStore ''http://A.com/P'' 7)) ''http://short.ly/7'') =
     ValueStr ''http://a.com/p'' \<and>
   ''http://a.com/p'' \<noteq> ''http://A.com/P''"
  by code_simp

section \<open>The key of an association\<close>

text \<open>
  C10 (as amended). The key under which \<open>add\<close> stores a URL is the text after the first
  \<open>://\<close> in lower case; the scheme is no part of it. Let the base be a valid host with no
  port, and let two URLs parse, with domains other than the base, neither of them a key of
  the collection yet. If their keys differ (as for \<open>http://a.com\<close> and \<open>http://a.com/\<close>,
  with and without a port, with and without a query string), the two calls of \<open>add\<close>
  store two documents, each with the short URL made from its own random number. If their
  keys are equal (the URLs differ in letter case or in scheme only), the second call stores
  nothing.
\<close>

theorem keys_and_associations:
  assumes b: "validateBase (SHORTENER_BASE s)" "CHR '':'' \<notin> set (SHORTENER_BASE s)"
    and p1: "validateScheme (getUrlParts L1) httpRegex = Inr p1" "domain p1 \<noteq> SHORTENER_BASE s"
    and p2: "validateScheme (getUrlParts L2) httpRegex = Inr p2" "domain p2 \<noteq> SHORTENER_BASE s"
    and new: "queryDb (col s) (baseRest p1) = None" "queryDb (col s) (baseRest p2) = None"
  shows
   "(\<exists>i j. indexOf L1 ''://'' = Some i \<and> baseRest p1 = toLowerCase (drop (i + 3) L1) \<and>
           indexOf L2 ''://'' = Some j \<and> baseRest p2 = toLowerCase (drop (j + 3) L2)) \<and>
    (baseRest p1 \<noteq> baseRest p2 \<longrightarrow>
       col (snd (add (snd (add s L1 r1)) L2 r2)) =
         col s @
         [\<lparr>longUrl = baseRest p1, shortUrl = SHORTENER_BASE s @ ''/'' @ toString36 r1,
           active = True, queries = 0\<rparr>,
          \<lparr>longUrl = baseRest p2, shortUrl = SHORTENER_BASE s @ ''/'' @ toString36 r2,
           active = True, queries = 0\<rparr>]) \<and>
    (baseRest p1 = baseRest p2 \<longrightarrow>
       col (snd (add (snd (add s L1 r1)) L2 r2)) =
         col s @
         [\<lparr>longUrl = baseRest p1, shortUrl = SHORTENER_BASE s @ ''/'' @ toString36 r1,
           active = True, queries = 0\<rparr>])"
proof -
  let ?B = "SHORTENER_BASE s"
  define x1 where "x1 = \<lparr>longUrl = baseRest p1, shortUrl = ?B @ ''/'' @ toString36 r1,
      active = True, queries = 0\<rparr>"
  define s1 where "s1 = s\<lparr>col := col s @ [x1]\<rparr>"
  from p1(1) p2(1) have gp: "getUrlParts L1 = Inr p1" "getUrlParts L2 = Inr p2"
    by (simp_all add: parse_Inr)
  from b have ns: "CHR ''/'' \<notin> set ?B"
    by (rule validateBase_no_slash)
  have a1: "snd (add s L1 r1) = s1"
    using add_new [OF p1 new(1)] by (simp add: s1_def x1_def)
  have b1: "SHORTENER_BASE s1 = ?B"
    by (simp add: s1_def)
  have k2: "baseRest p2 \<noteq> ?B @ ''/'' @ toString36 r1"
    using own_key_own_domain [OF gp(2) _ ns b(2)] p2(2) by blast
  have keys: "\<exists>i j. indexOf L1 ''://'' = Some i \<and> baseRest p1 = toLowerCase (drop (i + 3) L1) \<and>
           indexOf L2 ''://'' = Some j \<and> baseRest p2 = toLowerCase (drop (j + 3) L2)"
    using getUrlParts_Inr [OF gp(1)] getUrlParts_Inr [OF gp(2)] by blast
  have differ: "col (snd (add s1 L2 r2)) =
      col s @ [x1, \<lparr>longUrl = baseRest p2, shortUrl = ?B @ ''/'' @ toString36 r2,
           active = True, queries = 0\<rparr>]"
    if "baseRest p1 \<noteq> baseRest p2"
  proof -
    from that new(2) k2 have "queryDb (col s1) (baseRest p2) = None"
      by (simp add: s1_def queryDb_append x1_def)
    from add_new [OF p2(1) _ this, of r2] p2(2) show ?thesis
      by (simp add: s1_def)
  qed
  have same: "col (snd (add s1 L2 r2)) = col s @ [x1]"
    if "baseRest p1 = baseRest p2"
  proof -
    from that new(2) have "queryDb (col s1) (baseRest p2) = Some x1"
      by (simp add: s1_def queryDb_append x1_def)
    from add_found [OF p2(1) _ this, of r2] p2(2)
    have "col (snd (add s1 L2 r2)) = updateOne x1 (\<lambda>d. d\<lparr>active := True\<rparr>) (col s1)"
      by (simp add: s1_def)
    also have "\<dots> = col s1"
      by (rule updateOne_fix) (simp add: x1_def)
    finally show ?thesis
      by (simp add: s1_def)
  qed
  from keys differ same show ?thesis
    unfolding a1 x1_def by blast
qed

theorem keys_and_associations_witness:
  "col (snd (add (snd (add emptyStore ''http://a.com'' 7)) ''http://a.com/'' 8)) =
     [\<lparr>longUrl = ''a.com'', shortUrl = ''short.ly/7'', active = True, queries = 0\<rparr>,
      \<lparr>longUrl = ''a.com/'', shortUrl = ''short.ly/8'', active = True, queries = 0\<rparr>] \<and>
   col (snd (add (snd (add emptyStore ''http://a.com'' 7)) ''HTTPS://A.COM'' 8)) =
     [\<lparr>longUrl = ''a.com'', shortUrl = ''short.ly/7'', active = True, queries = 0\<rparr>]"
proof -
  have b: "validateBase (SHORTENER_BASE emptyStore)"
    by code_simp
  have c: "CHR '':'' \<notin> set (SHORTENER_BASE emptyStore)"
    by (simp add: emptyStore_def)
  have p1: "validateScheme (getUrlParts ''http://a.com'') httpRegex =
      Inr \<lparr>scheme = ''http'', base = ''a.com'', domain = ''a.com'', rest = None,
           baseRest = ''a.com'', url = ''http://a.com''\<rparr>"
    by code_simp
  have p2: "validateScheme (getUrlParts ''http://a.com/'') httpRegex =
      Inr \<lparr>scheme = ''http'', base = ''a.com'', domain = ''a.com'', rest = Some ''/'',
           baseRest = ''a.com/'', url = ''http://a.com/''\<rparr>"
    by code_simp
  have p3: "validateScheme (getUrlParts ''HTTPS://A.COM'') httpRegex =
      Inr \<lparr>scheme = ''https'', base = ''a.com'', domain = ''a.com'', rest = None,
           baseRest = ''a.com'', url = ''https://a.com''\<rparr>"
    by code_simp
  have n: "queryDb (col emptyStore) k = None" for k
    by (simp add: queryDb_def emptyStore_def)
  have t: "toString36 7 = ''7''" "toString36 8 = ''8''"
    by code_simp+
  from keys_and_associations [OF b c p1 _ p2 _ n n, of 7 8, THEN conjunct2, THEN conjunct1]
  have 1: "col (snd (add (snd (add emptyStore ''http://a.com'' 7)) ''http://a.com/'' 8)) =
     [\<lparr>longUrl = ''a.com'', shortUrl = ''short.ly/7'', active = True, queries = 0\<rparr>,
      \<lparr>longUrl = ''a.com/'', shortUrl = ''short.ly/8'', active = True, queries = 0\<rparr>]"
    by (simp add: emptyStore_def t)
  from keys_and_associations [OF b c p1 _ p3 _ n n, of 7 8, THEN conjunct2, THEN conjunct2]
  have 2: "col (snd (add (snd (add emptyStore ''http://a.com'' 7)) ''HTTPS://A.COM'' 8)) =
     [\<lparr>longUrl = ''a.com'', shortUrl = ''short.ly/7'', active = True, queries = 0\<rparr>]"
    by (simp add: emptyStore_def t)
  from 1 2 show ?thesis by simp
qed

text \<open>
  C10 (as stated) fails for two URLs that differ in scheme: they differ in more than letter
  case, and share one association.
\<close>

theorem keys_and_associations_counterexample:
  "toLowerCase ''http://a.com'' \<noteq> toLowerCase ''https://a.com'' \<and>
   col (snd (add (snd (add emptyStore ''http://a.com'' 7)) ''https://a.com'' 8)) =
     [\<lparr>longUrl = ''a.com'', shortUrl = ''short.ly/7'', active = True, queries = 0\<rparr>]"
  by code_simp

section \<open>The text translator: the loop and the pieces\<close>

lemma matchUrlRe_Nil: "matchUrlRe [] = None"
  by (simp add: matchUrlRe_def toLowerCase_def)

lemma search_None: "search s = None \<Longrightarrow> matchUrlRe (drop j s) = None"
proof (induction s arbitrary: j)
  case Nil
  then show ?case by (simp add: matchUrlRe_Nil)
next
  case (Cons c cs)
  then show ?case
    by (cases j) (auto split: option.splits)
qed

lemma search_Some:
  "search s = Some (i, n) \<Longrightarrow>
   matchUrlRe (drop i s) = Some n \<and> (\<forall>j<i. matchUrlRe (drop j s) = None)"
proof (induction s arbitrary: i)
  case Nil
  then show ?case by simp
next
  case (Cons c cs)
  show ?case
  proof (cases "matchUrlRe (c # cs)")
    case (Some m)
    with Cons.prems show ?thesis by simp
  next
    case None
    with Cons.prems obtain i' where i': "search cs = Some (i', n)" "i = Suc i'"
      by (auto split: option.splits)
    from Cons.IH [OF i'(1)] have
      m: "matchUrlRe (drop i' cs) = Some n" and l: "\<forall>j<i'. matchUrlRe (drop j cs) = None"
      by simp_all
    have "matchUrlRe (drop j (c # cs)) = None" if "j < i" for j
      using that None l i'(2) by (cases j) simp_all
    with m i'(2) show ?thesis by simp
  qed
qed

lemma pieces_scans: "scans t (pieces t)"
proof (induction t rule: pieces.induct)
  case (1 t)
  show ?case
  proof (cases "search t")
    case None
    then have "\<forall>j. matchUrlRe (drop j t) = None"
      by (simp add: search_None)
    then have "scans t [Plain t]"
      by (rule scans.no_match)
    with None show ?thesis
      by (simp add: pieces.simps [of t])
  next
    case (Some x)
    obtain i n where x: "x = (i, n)" by (cases x)
    with Some have s: "search t = Some (i, n)" by simp
    define a u r where "a = take i t" and "u = take n (drop i t)" and "r = drop (i + n) t"
    from search_bounds [OF s] have b: "0 < n" "i + n \<le> length t"
      by simp_all
    then have len: "length a = i" "length u = n"
      by (simp_all add: a_def u_def)
    have ur: "u @ r = drop i t"
      unfolding u_def r_def by (metis add.commute append_take_drop_id drop_drop)
    then have t: "t = a @ u @ r"
      by (simp add: a_def)
    from search_Some [OF s] have m: "matchUrlRe (drop i t) = Some n" and
      l: "\<forall>j<i. matchUrlRe (drop j t) = None"
      by simp_all
    from m have "matchUrlRe (u @ r) = Some (length u)"
      by (simp only: ur len)
    moreover from l have "\<forall>j < length a. matchUrlRe (drop j (a @ u @ r)) = None"
      by (simp only: t [symmetric] len)
    moreover from "1.IH" [OF s refl] have "scans r (pieces r)"
      by (simp add: r_def)
    ultimately have "scans (a @ u @ r) (Plain a # Link u # pieces r)"
      by (rule scans.match)
    then have "scans t (Plain a # Link u # pieces r)"
      by (simp only: t [symmetric])
    with s show ?thesis
      by (simp add: pieces.simps [of t] a_def u_def r_def)
  qed
qed

lemma pieces_concat: "concat (map pieceText (pieces t)) = t"
proof (induction t rule: pieces.induct)
  case (1 t)
  show ?case
  proof (cases "search t")
    case None
    then show ?thesis
      by (simp add: pieces.simps [of t])
  next
    case (Some x)
    obtain i n where x: "x = (i, n)" by (cases x)
    with Some have s: "search t = Some (i, n)" by simp
    from "1.IH" [OF s refl] have "concat (map pieceText (pieces (drop (i + n) t))) = drop (i + n) t" .
    moreover have "take i t @ take n (drop i t) @ drop (i + n) t = t"
      by (metis add.commute append_take_drop_id drop_drop)
    ultimately show ?thesis
      using s by (simp add: pieces.simps [of t])
  qed
qed

lemma loop_render:
  "lastIndex \<le> length t \<Longrightarrow>
   textShortenLoop m h t lastIndex st acc =
     (case render m h (pieces (drop lastIndex t)) st of (r, st') \<Rightarrow> (acc @ r, st'))"
proof (induction m h t lastIndex st acc rule: textShortenLoop.induct)
  case (1 m h t lastIndex st acc)
  show ?case
  proof (cases "search (drop lastIndex t)")
    case None
    then show ?thesis
      by (simp add: textShortenLoop.simps [of m h t lastIndex] exec_re_def
          pieces.simps [of "drop lastIndex t"])
  next
    case (Some x)
    obtain i n where x: "x = (i, n)" by (cases x)
    with Some have s: "search (drop lastIndex t) = Some (i, n)" by simp
    define u where "u = take n (drop (lastIndex + i) t)"
    from search_bounds [OF s] have b: "0 < n" "i + n \<le> length t - lastIndex"
      by simp_all
    with "1.prems" have lu: "length u = n" and le: "lastIndex + i + length u \<le> length t"
      by (simp_all add: u_def)
    have e: "exec_re t lastIndex = Some (lastIndex + i, u)"
      using s by (simp add: exec_re_def u_def)
    obtain result st1 where a: "m st u = (result, st1)"
      by (cases "m st u")
    have dd: "drop (i + n + lastIndex) t = drop (lastIndex + i + length u) t"
      by (simp add: lu add.commute add.left_commute)
    have ud: "take n (drop (i + lastIndex) t) = u"
      by (simp add: u_def add.commute)
    from "1.IH" [OF e refl a [symmetric] le]
    have "textShortenLoop m h t (lastIndex + i + length u) st1
        (acc @ htmlEscape h (take (lastIndex + i - lastIndex) (drop lastIndex t)) @
          (if h then anchor (resultValue result u) else resultValue result u)) =
      (case render m h (pieces (drop (lastIndex + i + length u) t)) st1 of
         (r, st') \<Rightarrow> ((acc @ htmlEscape h (take (lastIndex + i - lastIndex) (drop lastIndex t)) @
          (if h then anchor (resultValue result u) else resultValue result u)) @ r, st'))" .
    then show ?thesis
      using e a s
      by (simp add: textShortenLoop.simps [of m h t lastIndex]
          pieces.simps [of "drop lastIndex t"] dd ud split: prod.splits)
  qed
qed

lemma replaceAll_Nil: "replaceAll c rep [] = []"
  by (simp add: replaceAll_def)

lemma replaceAll_Cons: "replaceAll c rep (x # s) = (if x = c then rep else [x]) @ replaceAll c rep s"
  by (simp add: replaceAll_def)

lemma replaceAll_append: "replaceAll c rep (a @ b) = replaceAll c rep a @ replaceAll c rep b"
  by (simp add: replaceAll_def)

lemma htmlEscape_chars:
  "htmlEscape True t =
     concat (map (\<lambda>c. if c = CHR ''&'' then ''&amp;'' else if c = CHR ''<'' then ''&lt;''
                       else if c = CHR ''>'' then ''&gt;'' else if c = CHR 0x22 then ''&quot;''
                       else [c]) t)"
proof (induction t)
  case Nil
  then show ?case
    by (simp add: htmlEscape_def replaceAll_Nil)
next
  case (Cons x xs)
  then show ?case
    by (simp add: htmlEscape_def replaceAll_Cons replaceAll_append replaceAll_Nil)
qed

lemma https_not_http:
  assumes "toLowerCase (take 8 s) = ''https://''"
  shows "toLowerCase (take 7 s) \<noteq> ''http://''"
proof -
  have "toLowerCase (take 7 s) = take 7 (toLowerCase (take 8 s))"
    by (simp add: toLowerCase_def take_map)
  with assms show ?thesis by simp
qed

lemma matchUrlRe_iff:
  "matchUrlRe s = Some n \<longleftrightarrow>
     (\<exists>k. (k = 7 \<and> toLowerCase (take 7 s) = ''http://'' \<or>
           k = 8 \<and> toLowerCase (take 8 s) = ''https://'') \<and>
          takeWhile urlChar (drop k s) \<noteq> [] \<and>
          n = k + length (takeWhile urlChar (drop k s)))"
proof (cases "toLowerCase (take 8 s) = ''https://''")
  case True
  with https_not_http [OF True] show ?thesis
    by (auto simp: matchUrlRe_def split: list.splits)
next
  case False
  then show ?thesis
    by (auto simp: matchUrlRe_def split: list.splits)
qed

lemma render_throws:
  "\<forall>st u. fst (m st u) = Threw \<Longrightarrow> fst (render m False ps st) = concat (map pieceText ps)"
proof (induction ps arbitrary: st)
  case Nil
  then show ?case by simp
next
  case (Cons p ps)
  show ?case
  proof (cases p)
    case (Plain t)
    with Cons.IH [OF Cons.prems, of st] show ?thesis
      by (auto simp: htmlEscape_def split: prod.splits)
  next
    case (Link u)
    obtain r st1 where a: "m st u = (r, st1)"
      by (cases "m st u")
    with Cons.prems have "r = Threw"
      by (metis fst_conv)
    with Link a Cons.IH [OF Cons.prems, of st1] show ?thesis
      by (auto simp: resultValue_def split: prod.splits)
  qed
qed

text \<open>
  C9 (as amended). The output of \<open>doTextShorten\<close> is the output made piece by piece
  (\<open>render\<close>) from the scan of the text: the pieces are the text cut from left to right at
  the matches of the expression (\<open>scans\<close>: each URL piece is a match taken to the end of its
  run of URL characters, no match starts in the plain text before it, and the scan goes on
  behind it), and put together again they are the text. A match is \<open>http://\<close> or
  \<open>https://\<close>, in either case of the letters, and the longest run of URL characters after it,
  one at least. For a URL piece \<open>add\<close> is called once, in order: when it returns a value the
  value stands for the URL, when it throws the URL stands for itself, and when \<open>isHtml\<close> is
  set either of them is wrapped in an anchor. A plain piece is copied, with \<open>&\<close>, \<open><\<close>,
  \<open>>\<close> and the double quote escaped exactly when \<open>isHtml\<close> is set. So without \<open>isHtml\<close>, and
  with an \<open>add\<close> that always throws, the output is the text. (An \<open>add\<close> that returns an
  object without \<open>value\<close> makes the loop print \<open>undefined\<close>; the claim is silent on it.)
\<close>

theorem translate_by_pieces:
  "doTextShorten modelAdd isHtml t st = render modelAdd isHtml (pieces t) st \<and>
   scans t (pieces t) \<and>
   concat (map pieceText (pieces t)) = t \<and>
   (matchUrlRe s = Some n \<longleftrightarrow>
      (\<exists>k. (k = 7 \<and> toLowerCase (take 7 s) = ''http://'' \<or>
            k = 8 \<and> toLowerCase (take 8 s) = ''https://'') \<and>
           takeWhile urlChar (drop k s) \<noteq> [] \<and>
           n = k + length (takeWhile urlChar (drop k s)))) \<and>
   resultValue (Resolved (Some v)) u = v \<and>
   resultValue Threw u = u \<and>
   htmlEscape False t = t \<and>
   htmlEscape True t =
     concat (map (\<lambda>c. if c = CHR ''&'' then ''&amp;'' else if c = CHR ''<'' then ''&lt;''
                       else if c = CHR ''>'' then ''&gt;'' else if c = CHR 0x22 then ''&quot;''
                       else [c]) t) \<and>
   ((\<forall>st u. fst (modelAdd st u) = Threw) \<longrightarrow> fst (doTextShorten modelAdd False t st) = t)"
proof -
  have a: "doTextShorten modelAdd h t st = render modelAdd h (pieces t) st" for h
    using loop_render [of 0 t modelAdd h st "[]"]
    by (simp add: doTextShorten_def split: prod.splits)
  have "fst (doTextShorten modelAdd False t st) = t" if "\<forall>st u. fst (modelAdd st u) = Threw"
    using render_throws [OF that, of "pieces t" st] by (simp add: a pieces_concat)
  with a [of isHtml] show ?thesis
    using pieces_scans [of t] pieces_concat [of t] matchUrlRe_iff [of s n] htmlEscape_chars [of t]
    by (simp add: resultValue_def htmlEscape_def)
qed

theorem translate_by_pieces_witness:
  "doTextShorten fixedValue False ''see http://x.com/a now'' () = (''see http://s.ly/1 now'', ()) \<and>
   fst (doTextShorten alwaysThrows False ''see <http://x.com/a> now'' ()) =
     ''see <http://x.com/a> now''"
proof -
  have "doTextShorten fixedValue False ''see http://x.com/a now'' () =
      render fixedValue False (pieces ''see http://x.com/a now'') ()"
    using translate_by_pieces [of fixedValue False "''see http://x.com/a now''" "()"] by blast
  also have "\<dots> = (''see http://s.ly/1 now'', ())"
    by code_simp
  finally have 1: "doTextShorten fixedValue False ''see http://x.com/a now'' () =
      (''see http://s.ly/1 now'', ())" .
  have "\<forall>st u. fst (alwaysThrows st u) = Threw"
    by (simp add: alwaysThrows_def)
  with translate_by_pieces [of alwaysThrows _ "''see <http://x.com/a> now''" "()"]
  have 2: "fst (doTextShorten alwaysThrows False ''see <http://x.com/a> now'' ()) =
     ''see <http://x.com/a> now''"
    by blast
  from 1 2 show ?thesis by simp
qed

text \<open>
  C9 (as stated) fails when \<open>isHtml\<close> is set: a URL for which \<open>add\<close> throws is not left as
  it was, it is wrapped in an anchor.
\<close>

theorem translate_counterexample:
  "fst (doTextShorten alwaysThrows True ''http://x'' ()) = anchor ''http://x'' \<and>
   anchor ''http://x'' \<noteq> ''http://x''"
  by code_simp

end
